theory Spec2Isabelle
  imports Complex_Main "HOL-Library.Sublist"
begin

section \<open>Python strings\<close>

text \<open>
  A Python \<^verbatim>\<open>str\<close> is a sequence of Unicode code points, modelled as a list of naturals.
  ASCII literals of the source are written \<open>ascii ''...''\<close>; the Chinese literals are
  given by their code points. The test \<^verbatim>\<open>p in s\<close> is \<^const>\<open>sublist\<close> \<open>p s\<close>.
\<close>

type_synonym pystr = "nat list"

definition ascii :: "string \<Rightarrow> pystr" where
  "ascii s = map of_char s"

text \<open>
  The code points that \<^verbatim>\<open>str.strip()\<close> removes (those with \<^verbatim>\<open>str.isspace()\<close>).
\<close>

definition py_isspace :: "nat \<Rightarrow> bool" where
  "py_isspace c \<longleftrightarrow>
     (0x9 \<le> c \<and> c \<le> 0xD) \<or> (0x1C \<le> c \<and> c \<le> 0x20) \<or> c = 0x85 \<or> c = 0xA0 \<or>
     c = 0x1680 \<or> (0x2000 \<le> c \<and> c \<le> 0x200A) \<or> c = 0x2028 \<or> c = 0x2029 \<or>
     c = 0x202F \<or> c = 0x205F \<or> c = 0x3000"

definition py_strip :: "pystr \<Rightarrow> pystr" where
  "py_strip s = rev (dropWhile py_isspace (rev (dropWhile py_isspace s)))"

text \<open>
  \<^verbatim>\<open>str.lower()\<close>: the code points whose lower-case form contains an ASCII letter are
  mapped as Python maps them (A-Z, U+0130 and U+212A); every other code point is left as
  it is. The program compares lower-cased text with ASCII text only, where this agrees
  with Python.
\<close>

definition lower_cp :: "nat \<Rightarrow> pystr" where
  "lower_cp c =
     (if 0x41 \<le> c \<and> c \<le> 0x5A then [c + 0x20]
      else if c = 0x130 then [0x69, 0x307]
      else if c = 0x212A then [0x6B]
      else [c])"

definition py_lower :: "pystr \<Rightarrow> pystr" where
  "py_lower s = concat (map lower_cp s)"

text \<open>
  \<^verbatim>\<open>s.replace(old, new)\<close> for a non-empty \<open>old\<close>: the occurrences are replaced from
  left to right, without overlap.
\<close>

function py_replace :: "pystr \<Rightarrow> pystr \<Rightarrow> pystr \<Rightarrow> pystr" where
  "py_replace old new [] = []"
| "py_replace old new (c # s) =
     (if old \<noteq> [] \<and> prefix old (c # s)
      then new @ py_replace old new (drop (length old) (c # s))
      else c # py_replace old new s)"
  by pat_completeness auto
termination
  by (relation "measure (\<lambda>(old, new, s). length s)") (auto simp: neq_Nil_conv)

text \<open>
  \<^verbatim>\<open>_strip_or_empty\<close> on a \<^verbatim>\<open>str\<close>: drop the spreadsheet's \<^verbatim>\<open>_x000d_\<close>, drop every
  \<^verbatim>\<open>\r\<close>, \<^verbatim>\<open>\n\<close> and \<^verbatim>\<open>\t\<close>, strip. (\<^verbatim>\<open>_safe_str\<close> is the identity on a \<^verbatim>\<open>str\<close>;
  commands and replies are \<^verbatim>\<open>str\<close> values, so its calls are not written out.)
\<close>

definition strip_or_empty :: "pystr \<Rightarrow> pystr" where
  "strip_or_empty x =
     (let cleaned = py_replace (ascii ''_x000d_'') [] x;
          cleaned = filter (\<lambda>c. c \<noteq> 0xD \<and> c \<noteq> 0xA \<and> c \<noteq> 0x9) cleaned
      in py_strip cleaned)"


section \<open>The session provider\<close>

text \<open>
  The session object is the external collaborator. What the program can observe of it is
  modelled by one state that is threaded through the calls: the replies the device will
  give to the successive writes (a device that has nothing more to say stays silent), the
  wall clock read by \<^verbatim>\<open>time.time()\<close> (idealised as a real number; time passes while a
  write waits for its reply), the channel object, and the record of everything that was
  written, disconnected and logged by the program.
\<close>

datatype exn = OSError pystr | NetmikoTimeoutException pystr | OtherException pystr

datatype reply = Reply (r_result: "exn + pystr") (r_took: real) (r_closes: bool)

text \<open>Reading an attribute: it is absent, reading it raises, or it has a value.\<close>

datatype 'a attr = Absent | Raising exn | Has 'a

datatype channel = Channel (ch_closed: "bool attr")

datatype level = Debug | Info | Warning | Error

datatype log_line =
    PagedWithSpace pystr pystr
  | PagedWithEnter pystr pystr
  | SkipEmptyCommand
  | TaskTimedOut
  | ChannelClosedStop
  | PaginationFailed exn
  | BaseOutputFailed exn
  | CommandIncompatible pystr
  | SocketClosedAfter pystr
  | CommandRaised pystr exn
  | SshTimedOut exn
  | QuitClosedChannel
  | QuitStillOpen
  | AlreadyClosedRemotely
  | DisconnectFailed exn
  | DisconnectRaised exn
  | InspectionFinished
  | ResourcesReleased
  | NoCommandsConfigured

datatype event = Sent pystr real | Disconnect | Log level log_line | Printed pystr pystr

record session =
  script :: "reply list"
  clock :: real
  remote_conn :: "channel option attr"
  disconnect_raises :: "exn option"
  events :: "event list"

definition silent :: reply where
  "silent = Reply (Inr []) 0 False"

text \<open>\<^verbatim>\<open>ssh.send_command_timing(text, read_timeout=...)\<close>: returns the reply or raises.\<close>

definition send_command_timing :: "pystr \<Rightarrow> real \<Rightarrow> session \<Rightarrow> (exn + pystr) \<times> session" where
  "send_command_timing text read_timeout ssh =
     (let r = (case script ssh of [] \<Rightarrow> silent | r # _ \<Rightarrow> r) in
      (r_result r,
       ssh\<lparr>script := tl (script ssh),
           clock := clock ssh + r_took r,
           remote_conn := (if r_closes r then Has (Some (Channel (Has True))) else remote_conn ssh),
           events := events ssh @ [Sent text read_timeout]\<rparr>))"

text \<open>\<^verbatim>\<open>ssh.disconnect()\<close>: \<open>None\<close> when it returns, the exception when it raises.\<close>

definition disconnect :: "session \<Rightarrow> exn option \<times> session" where
  "disconnect ssh = (disconnect_raises ssh, ssh\<lparr>events := events ssh @ [Disconnect]\<rparr>)"

text \<open>
  \<^verbatim>\<open>log_message\<close> catches its own failures. A log line is recorded by the message it
  instantiates and the values put into it, not by its text. The log lines that are only
  written when \<^verbatim>\<open>enable_show_output == 'y'\<close> are left out: they go through
  \<^verbatim>\<open>log_message\<close> and influence neither the session nor any result.
\<close>

definition log_message :: "level \<Rightarrow> log_line \<Rightarrow> session \<Rightarrow> session" where
  "log_message lv l ssh = ssh\<lparr>events := events ssh @ [Log lv l]\<rparr>"

text \<open>
  \<^verbatim>\<open>print(...)\<close> of a command's output on the console, which the task does when
  \<^verbatim>\<open>enable_show_output == 'y'\<close>. The console is outside the session: \<open>console cmd out\<close>
  is the exception that printing this output raises, if any.
\<close>

definition console_print ::
  "(pystr \<Rightarrow> pystr \<Rightarrow> exn option) \<Rightarrow> pystr \<Rightarrow> pystr \<Rightarrow> session \<Rightarrow> exn option \<times> session" where
  "console_print console cmd out ssh =
     (console cmd out, ssh\<lparr>events := events ssh @ [Printed cmd out]\<rparr>)"

text \<open>What was written to the channel, with the read timeout of each write, in order.\<close>

definition writes :: "session \<Rightarrow> (pystr \<times> real) list" where
  "writes ssh = concat (map (\<lambda>ev. case ev of Sent text rt \<Rightarrow> [(text, rt)] | _ \<Rightarrow> []) (events ssh))"

section \<open>Global configuration\<close>

definition INSPECTION_TASK_TIMEOUT :: real where
  "INSPECTION_TASK_TIMEOUT = 600"

definition INSPECTION_CMD_TIMEOUT :: real where
  "INSPECTION_CMD_TIMEOUT = 10"

definition LONG_TIMEOUT :: real where
  "LONG_TIMEOUT = max (INSPECTION_CMD_TIMEOUT * 3) 240"

definition DEFAULT_MAX_PAGE :: nat where
  "DEFAULT_MAX_PAGE = 200"

definition BIG_OUTPUT_MAX_PAGE :: nat where
  "BIG_OUTPUT_MAX_PAGE = DEFAULT_MAX_PAGE * 3"

definition MAX_REPEAT_PAGE :: nat where
  "MAX_REPEAT_PAGE = 5"

definition NO_OUTPUT_CMDS :: "pystr list" where
  "NO_OUTPUT_CMDS =
     [ascii ''sys'', ascii ''enable'', ascii ''user-inter con 0'', ascii ''quit'',
      ascii ''undo screen-length'', ascii ''screen-length disable'',
      ascii ''screen-length enable'', ascii ''screen-length 0'',
      ascii ''screen-length 0 temporary'']"

definition BIG_OUTPUT_CMDS :: "pystr list" where
  "BIG_OUTPUT_CMDS =
     [ascii ''display ospf routing'',
      ascii ''display ip routing-table statistics'',
      ascii ''display ip routing-table'',
      ascii ''display current-configuration'',
      ascii ''display interface'',
      ascii ''display stp'',
      ascii ''display mac-address'',
      ascii ''display device manuinfo'',
      ascii ''display elabel'']"

definition PAGINATION_PATTERNS :: "pystr list" where
  "PAGINATION_PATTERNS =
     [ascii ''---- More ----'',
      ascii ''  ---- More ----  '',
      ascii ''---- More ----  '',
      ascii ''  ---- More ----'',
      ascii ''--More--'',
      ascii ''<--- More --->'',
      ascii ''<Press ENTER to continue>'']"

section \<open>The pagination engine: \<^verbatim>\<open>handle_pagination\<close>\<close>

subsection \<open>Texts it returns\<close>

definition skip_msg :: pystr where
  "skip_msg = [0x8DF3, 0x8FC7, 0x7A7A, 0x547D, 0x4EE4]"

definition cmd_word :: pystr where
  "cmd_word = [0x547D, 0x4EE4, 0x20]"

definition alt_succeeded_msg :: "pystr \<Rightarrow> pystr \<Rightarrow> pystr \<Rightarrow> pystr" where
  "alt_succeeded_msg cmd alt_cmd out =
     cmd_word @ cmd @
     [0x20, 0x6267, 0x884C, 0x5931, 0x8D25, 0xFF0C, 0x5DF2, 0x5C1D, 0x8BD5, 0x66FF, 0x4EE3,
      0x547D, 0x4EE4, 0x20] @ alt_cmd @ [0xFF1A] @ out"

definition failed_msg :: "pystr \<Rightarrow> pystr \<Rightarrow> pystr" where
  "failed_msg cmd out = cmd_word @ cmd @ [0x20, 0x6267, 0x884C, 0x5931, 0x8D25, 0xFF1A] @ out"

definition no_output_msg :: "pystr \<Rightarrow> pystr" where
  "no_output_msg cmd =
     cmd_word @ cmd @ [0x20, 0x6267, 0x884C, 0x5B8C, 0x6BD5, 0xFF0C, 0x65E0, 0x8F93, 0x51FA, 0x3002]"

definition echo_only_msg :: "pystr \<Rightarrow> pystr" where
  "echo_only_msg cmd =
     cmd_word @ cmd @
     [0x20, 0x5DF2, 0x53D1, 0x9001, 0xFF0C, 0x4F46, 0x53EF, 0x80FD, 0x65E0, 0x56DE, 0x663E,
      0x6216, 0x672A, 0x751F, 0x6548, 0x3002]"

definition deadlock_warning :: pystr where
  "deadlock_warning =
     [0xA, 0x5B, 0x8B66, 0x544A, 0x5D, 0x20, 0x591A, 0x6B21, 0x7FFB, 0x9875, 0x540E, 0x5185,
      0x5BB9, 0x65E0, 0x53D8, 0x5316, 0xFF0C, 0x53EF, 0x80FD, 0x9677, 0x5165, 0x5206, 0x9875,
      0x6B7B, 0x5FAA, 0x73AF, 0xFF0C, 0x5DF2, 0x5F3A, 0x5236, 0x4E2D, 0x6B62, 0x3002, 0xA]"

definition timeout_warning :: pystr where
  "timeout_warning =
     [0xA, 0x5B, 0x8B66, 0x544A, 0x5D, 0x20, 0x5206, 0x9875, 0x547D, 0x4EE4, 0x6267, 0x884C,
      0x8D85, 0x65F6, 0xFF0C, 0x5DF2, 0x5F3A, 0x5236, 0x4E2D, 0x6B62, 0x3002, 0xA]"

subsection \<open>Commands without output\<close>

definition error_patterns :: "pystr list" where
  "error_patterns =
     [ascii ''Permission denied'',
      ascii ''Unrecognized command'',
      ascii ''% Unrecognized command'',
      ascii ''Error: Unrecognized command'',
      ascii ''invalid input'',
      ascii ''Invalid command'']"

definition has_error :: "pystr \<Rightarrow> bool" where
  "has_error s_show = list_ex (\<lambda>pattern. sublist pattern s_show) error_patterns"

definition alternative_cmds :: "pystr list" where
  "alternative_cmds =
     [ascii ''screen-length 0'',
      ascii ''screen-length 0 temporary'',
      ascii ''undo screen-length'',
      ascii ''screen-length enable'']"

text \<open>
  The loop over the alternative spellings. \<open>Some\<close> is the \<^verbatim>\<open>return\<close> inside the loop
  (or an exception of the write, which leaves the function); \<open>None\<close> means that the loop
  ran to its end.
\<close>

fun try_alternatives ::
  "pystr \<Rightarrow> pystr \<Rightarrow> real \<Rightarrow> pystr list \<Rightarrow> session \<Rightarrow> (exn + pystr) option \<times> session" where
  "try_alternatives cmd cmd_clean timeout_per_cmd [] ssh = (None, ssh)"
| "try_alternatives cmd cmd_clean timeout_per_cmd (alt_cmd # alts) ssh =
     (if alt_cmd \<noteq> cmd_clean then
        (case send_command_timing alt_cmd timeout_per_cmd ssh of
           (Inl e, ssh') \<Rightarrow> (Some (Inl e), ssh')
         | (Inr alt_show, ssh') \<Rightarrow>
             if \<not> has_error alt_show
             then (Some (Inr (alt_succeeded_msg cmd alt_cmd (py_strip alt_show))), ssh')
             else try_alternatives cmd cmd_clean timeout_per_cmd alts ssh')
      else try_alternatives cmd cmd_clean timeout_per_cmd alts ssh)"

definition no_output_command :: "session \<Rightarrow> pystr \<Rightarrow> pystr \<Rightarrow> real \<Rightarrow> (exn + pystr) \<times> session" where
  "no_output_command ssh cmd cmd_clean timeout_per_cmd =
     (case send_command_timing cmd timeout_per_cmd ssh of
        (Inl e, ssh1) \<Rightarrow> (Inl e, ssh1)
      | (Inr show, ssh1) \<Rightarrow>
          (case (if sublist (ascii ''screen-length'') cmd_clean \<and> has_error show
                 then try_alternatives cmd cmd_clean timeout_per_cmd alternative_cmds ssh1
                 else (None, ssh1)) of
             (Some returned, ssh2) \<Rightarrow> (returned, ssh2)
           | (None, ssh2) \<Rightarrow>
               if has_error show then (Inr (failed_msg cmd (py_strip show)), ssh2)
               else if py_strip show = [] then (Inr (no_output_msg cmd), ssh2)
               else if py_strip show = cmd then (Inr (echo_only_msg cmd), ssh2)
               else (Inr show, ssh2)))"

subsection \<open>Large output\<close>

definition big_output_limits :: "pystr \<Rightarrow> nat \<Rightarrow> real \<Rightarrow> nat \<times> real" where
  "big_output_limits cmd_clean max_page timeout_per_cmd =
     (if cmd_clean \<in> set BIG_OUTPUT_CMDS
      then (max max_page BIG_OUTPUT_MAX_PAGE, min (timeout_per_cmd * 3) LONG_TIMEOUT)
      else (max_page, timeout_per_cmd))"

subsection \<open>The standard paging loop\<close>

definition unrecognized :: "pystr \<Rightarrow> bool" where
  "unrecognized s_show \<longleftrightarrow>
     sublist (ascii ''Unrecognized command'') s_show \<or>
     sublist (ascii ''Error: Unrecognized command found at '' @ [0x27, 0x5E, 0x27] @
              ascii '' position.'') s_show"

text \<open>The first pagination marker recognised in the text, as the \<^verbatim>\<open>for\<close> loop finds it.\<close>

definition find_marker :: "pystr \<Rightarrow> pystr option" where
  "find_marker s_show =
     find (\<lambda>p. p \<noteq> [] \<and> (sublist p s_show \<or> sublist (py_lower p) (py_lower s_show)))
          (map strip_or_empty PAGINATION_PATTERNS)"

definition space_markers :: "pystr list" where
  "space_markers =
     [ascii ''---- More ----'', ascii ''--More--'', ascii ''<--- More --->'',
      ascii ''  ---- More ----  '', ascii ''---- More ----  '', ascii ''  ---- More ----'']"

text \<open>
  Turning the page for the marker \<open>p\<close>: the text to append to \<^verbatim>\<open>show\<close> (nothing when
  neither branch applies), or the exception of the write.
\<close>

definition turn_page :: "pystr \<Rightarrow> pystr \<Rightarrow> real \<Rightarrow> session \<Rightarrow> (exn + pystr) \<times> session" where
  "turn_page cmd p timeout_per_cmd ssh =
     (if p \<in> set space_markers
      then send_command_timing (ascii '' '') timeout_per_cmd
             (log_message Info (PagedWithSpace cmd p) ssh)
      else if p = ascii ''<Press ENTER to continue>''
      then send_command_timing [0xA] timeout_per_cmd
             (log_message Info (PagedWithEnter cmd p) ssh)
      else (Inr [], ssh))"

text \<open>The repeat ceiling, doubled for a command of the large-output set.\<close>

definition current_max_repeat :: "pystr \<Rightarrow> nat" where
  "current_max_repeat cmd_clean =
     (if cmd_clean \<in> set BIG_OUTPUT_CMDS then MAX_REPEAT_PAGE * 2 else MAX_REPEAT_PAGE)"

record page_state =
  show_text :: pystr
  prev_output :: pystr
  repeat_count :: nat
  page_count :: nat

datatype step = Continue page_state session | Break "exn + pystr" session

text \<open>One execution of the body of \<^verbatim>\<open>while True\<close>.\<close>

definition paging_body ::
  "pystr \<Rightarrow> pystr \<Rightarrow> real \<Rightarrow> nat \<Rightarrow> real \<Rightarrow> page_state \<Rightarrow> session \<Rightarrow> step" where
  "paging_body cmd cmd_clean timeout_per_cmd max_page pagination_start_time st ssh =
     (let s_show = show_text st in
      if unrecognized s_show then Break (Inr (show_text st)) ssh
      else
        let st = (if py_strip s_show = py_strip (prev_output st)
                  then st\<lparr>repeat_count := repeat_count st + 1\<rparr>
                  else st\<lparr>repeat_count := 0, prev_output := s_show\<rparr>)
        in
        if repeat_count st \<ge> current_max_repeat cmd_clean
        then Break (Inr (show_text st @ deadlock_warning)) ssh
        else if clock ssh - pagination_start_time > timeout_per_cmd
        then Break (Inr (show_text st @ timeout_warning)) ssh
        else
          (case find_marker s_show of
             None \<Rightarrow> Break (Inr (show_text st)) ssh
           | Some p \<Rightarrow>
               (case turn_page cmd p timeout_per_cmd ssh of
                  (Inl e, ssh') \<Rightarrow> Break (Inl e) ssh'
                | (Inr page, ssh') \<Rightarrow>
                    let st = st\<lparr>show_text := show_text st @ page,
                                page_count := page_count st + 1\<rparr>
                    in if page_count st > max_page
                       then Break (Inr (show_text st)) ssh'
                       else Continue st ssh')))"

function paging_loop ::
  "pystr \<Rightarrow> pystr \<Rightarrow> real \<Rightarrow> nat \<Rightarrow> real \<Rightarrow> page_state \<Rightarrow> session \<Rightarrow> (exn + pystr) \<times> session" where
  "paging_loop cmd cmd_clean timeout_per_cmd max_page pagination_start_time st ssh =
     (case paging_body cmd cmd_clean timeout_per_cmd max_page pagination_start_time st ssh of
        Break result ssh' \<Rightarrow> (result, ssh')
      | Continue st' ssh' \<Rightarrow>
          paging_loop cmd cmd_clean timeout_per_cmd max_page pagination_start_time st' ssh')"
  by pat_completeness auto
termination
proof (relation "measure (\<lambda>(cmd, cmd_clean, t, max_page, start, st, ssh).
                            Suc max_page - page_count st)")
  show "wf (measure (\<lambda>(cmd :: pystr, cmd_clean :: pystr, t :: real, max_page, start :: real,
                        st, ssh :: session). Suc max_page - page_count st))"
    by simp
next
  fix cmd cmd_clean :: pystr and t start :: real and max_page :: nat
    and st st' :: page_state and ssh ssh' :: session
  assume "paging_body cmd cmd_clean t max_page start st ssh = Continue st' ssh'"
  then have "page_count st' = Suc (page_count st) \<and> page_count st' \<le> max_page"
    by (auto simp: paging_body_def Let_def
             split: if_splits option.splits prod.splits sum.splits)
  then show "((cmd, cmd_clean, t, max_page, start, st', ssh'),
              (cmd, cmd_clean, t, max_page, start, st, ssh))
             \<in> measure (\<lambda>(cmd, cmd_clean, t, max_page, start, st, ssh).
                           Suc max_page - page_count st)"
    by simp arith
qed

declare paging_loop.simps [simp del]

text \<open>At most \<open>n\<close> executions of the loop body; \<open>None\<close> when the loop is still running.\<close>

fun paging_iterations ::
  "nat \<Rightarrow> pystr \<Rightarrow> pystr \<Rightarrow> real \<Rightarrow> nat \<Rightarrow> real \<Rightarrow> page_state \<Rightarrow> session
   \<Rightarrow> ((exn + pystr) \<times> session) option" where
  "paging_iterations 0 cmd cmd_clean timeout_per_cmd max_page start st ssh = None"
| "paging_iterations (Suc n) cmd cmd_clean timeout_per_cmd max_page start st ssh =
     (case paging_body cmd cmd_clean timeout_per_cmd max_page start st ssh of
        Break result ssh' \<Rightarrow> Some (result, ssh')
      | Continue st' ssh' \<Rightarrow>
          paging_iterations n cmd cmd_clean timeout_per_cmd max_page start st' ssh')"

definition standard_paging ::
  "session \<Rightarrow> pystr \<Rightarrow> pystr \<Rightarrow> real \<Rightarrow> nat \<Rightarrow> (exn + pystr) \<times> session" where
  "standard_paging ssh cmd cmd_clean timeout_per_cmd max_page =
     (case send_command_timing cmd timeout_per_cmd ssh of
        (Inl e, ssh1) \<Rightarrow> (Inl e, ssh1)
      | (Inr show, ssh1) \<Rightarrow>
          if unrecognized show then (Inr show, ssh1)
          else paging_loop cmd cmd_clean timeout_per_cmd max_page (clock ssh1)
                 \<lparr>show_text = show, prev_output = [], repeat_count = 0, page_count = 0\<rparr> ssh1)"

definition handle_pagination ::
  "session \<Rightarrow> pystr \<Rightarrow> real \<Rightarrow> nat \<Rightarrow> (exn + pystr) \<times> session" where
  "handle_pagination ssh cmd timeout_per_cmd max_page =
     (let cmd_clean = strip_or_empty cmd in
      if cmd_clean = [] then (Inr skip_msg, ssh)
      else if cmd_clean \<in> set NO_OUTPUT_CMDS
      then no_output_command ssh cmd cmd_clean timeout_per_cmd
      else
        (case big_output_limits cmd_clean max_page timeout_per_cmd of
           (max_page, timeout_per_cmd) \<Rightarrow>
             standard_paging ssh cmd cmd_clean timeout_per_cmd max_page))"

section \<open>\<^verbatim>\<open>channel_closed\<close>\<close>

text \<open>
  The body of the \<^verbatim>\<open>try\<close>: \<^verbatim>\<open>getattr\<close> with a default turns an absent attribute into the
  default and lets any other exception through.
\<close>

definition channel_closed_try :: "session \<Rightarrow> exn + bool" where
  "channel_closed_try ssh =
     (case (case remote_conn ssh of
              Absent \<Rightarrow> Inr None
            | Raising e \<Rightarrow> Inl e
            | Has rc \<Rightarrow> Inr rc) of
        Inl e \<Rightarrow> Inl e
      | Inr None \<Rightarrow> Inr True
      | Inr (Some rc) \<Rightarrow>
          (case ch_closed rc of
             Absent \<Rightarrow> Inr False
           | Raising e \<Rightarrow> Inl e
           | Has c \<Rightarrow> Inr c))"

definition channel_closed :: "session \<Rightarrow> bool" where
  "channel_closed ssh = (case channel_closed_try ssh of Inl e \<Rightarrow> True | Inr c \<Rightarrow> c)"

section \<open>The device inspection task: \<^verbatim>\<open>inspection\<close>\<close>

text \<open>
  The model starts where the login has succeeded and the prompt has been read; the
  classification of login failures is outside it.

  \<open>run_command\<close> is the inner \<^verbatim>\<open>try\<close> with its handler \<^verbatim>\<open>except Exception\<close>: the
  pagination engine, and on any exception one plain write without paging.
\<close>

definition run_command :: "session \<Rightarrow> pystr \<Rightarrow> real \<Rightarrow> (exn + pystr) \<times> session" where
  "run_command ssh cmd timeout_per_cmd =
     (case handle_pagination ssh cmd timeout_per_cmd DEFAULT_MAX_PAGE of
        (Inr show, ssh1) \<Rightarrow> (Inr show, ssh1)
      | (Inl e, ssh1) \<Rightarrow>
          (case send_command_timing cmd timeout_per_cmd
                  (log_message Error (PaginationFailed e) ssh1) of
             (Inr base_output, ssh2) \<Rightarrow> (Inr base_output, ssh2)
           | (Inl e2, ssh2) \<Rightarrow> (Inr [], log_message Error (BaseOutputFailed e2) ssh2)))"

text \<open>
  The end of an iteration, after a reply that is not an unrecognized command: the special
  case of \<^verbatim>\<open>quit\<close>, then the echo of the output on the console when
  \<^verbatim>\<open>enable_show_output == 'y'\<close>. The echo stands outside every \<^verbatim>\<open>try\<close> of the loop, so
  what it raises leaves the loop. \<open>Stop\<close> is the \<^verbatim>\<open>break\<close> or the exception, \<open>Next\<close> the
  next iteration.
\<close>

datatype loop_next = Stop "exn option" session | Next session

definition quit_and_echo ::
  "pystr \<Rightarrow> (pystr \<Rightarrow> pystr \<Rightarrow> exn option) \<Rightarrow> pystr \<Rightarrow> pystr \<Rightarrow> session \<Rightarrow> loop_next" where
  "quit_and_echo enable_show_output console cmd out ssh =
     (if py_lower (py_strip cmd) = ascii ''quit'' \<and> channel_closed ssh
      then Stop None (log_message Info QuitClosedChannel ssh)
      else
        let ssh1 = (if py_lower (py_strip cmd) = ascii ''quit''
                    then log_message Info QuitStillOpen ssh else ssh)
        in
        if enable_show_output = ascii ''y''
        then (case console_print console cmd out ssh1 of
                (Some e, ssh2) \<Rightarrow> Stop (Some e) ssh2
              | (None, ssh2) \<Rightarrow> Next ssh2)
        else Next ssh1)"

text \<open>
  The \<^verbatim>\<open>for\<close> loop over the commands. The result is the exception that leaves the loop, if
  any, and the session; \<^verbatim>\<open>return\<close> and \<^verbatim>\<open>break\<close> both lead to the \<^verbatim>\<open>finally\<close> block.
\<close>

fun inspection_commands ::
  "pystr \<Rightarrow> (pystr \<Rightarrow> pystr \<Rightarrow> exn option) \<Rightarrow> real \<Rightarrow> session \<Rightarrow> pystr list
   \<Rightarrow> exn option \<times> session" where
  "inspection_commands enable_show_output console inspection_start_time ssh [] = (None, ssh)"
| "inspection_commands enable_show_output console inspection_start_time ssh (cmd # cmds) =
     (let cmd_clean = strip_or_empty cmd in
      if cmd_clean = []
      then inspection_commands enable_show_output console inspection_start_time
             (log_message Debug SkipEmptyCommand ssh) cmds
      else
        let elapsed = clock ssh - inspection_start_time;
            remaining = INSPECTION_TASK_TIMEOUT - elapsed
        in
        if remaining \<le> 0
        then (None, snd (disconnect (log_message Error TaskTimedOut ssh)))
        else if channel_closed ssh
        then (None, log_message Info ChannelClosedStop ssh)
        else
          let timeout_per_cmd = min INSPECTION_CMD_TIMEOUT remaining in
          (case run_command ssh cmd timeout_per_cmd of
             (Inl (OSError msg), ssh1) \<Rightarrow>
               (None,
                if sublist (ascii ''Socket is closed'') msg
                then log_message Info (SocketClosedAfter cmd) ssh1
                else log_message Error (CommandRaised cmd (OSError msg)) ssh1)
           | (Inl (NetmikoTimeoutException msg), ssh1) \<Rightarrow>
               (None, log_message Error (SshTimedOut (NetmikoTimeoutException msg)) ssh1)
           | (Inl (OtherException msg), ssh1) \<Rightarrow> (Some (OtherException msg), ssh1)
           | (Inr show, ssh1) \<Rightarrow>
               if unrecognized show
               then inspection_commands enable_show_output console inspection_start_time
                      (log_message Warning (CommandIncompatible cmd) ssh1) cmds
               else
                 (case quit_and_echo enable_show_output console cmd show ssh1 of
                    Stop raised ssh2 \<Rightarrow> (raised, ssh2)
                  | Next ssh2 \<Rightarrow>
                      inspection_commands enable_show_output console inspection_start_time
                        ssh2 cmds)))"

text \<open>The \<^verbatim>\<open>finally\<close> block: disconnect, whatever it raises is logged and dropped.\<close>

definition inspection_finally :: "session \<Rightarrow> session" where
  "inspection_finally ssh =
     (let ssh1 =
        (case disconnect ssh of
           (None, ssh1) \<Rightarrow> ssh1
         | (Some (OSError msg), ssh1) \<Rightarrow>
             if sublist (ascii ''Socket is closed'') msg
             then log_message Info AlreadyClosedRemotely ssh1
             else log_message Error (DisconnectFailed (OSError msg)) ssh1
         | (Some e, ssh1) \<Rightarrow> log_message Error (DisconnectRaised e) ssh1)
      in log_message Info ResourcesReleased (log_message Info InspectionFinished ssh1))"

text \<open>
  \<open>cmds\<close> is \<^verbatim>\<open>cmds_dict.get(login_info['device_type'])\<close>. The result is the exception
  that reaches the caller, if any, and the session after the \<^verbatim>\<open>finally\<close> block.
\<close>

definition inspection ::
  "pystr \<Rightarrow> (pystr \<Rightarrow> pystr \<Rightarrow> exn option) \<Rightarrow> real \<Rightarrow> session \<Rightarrow> pystr list option
   \<Rightarrow> exn option \<times> session" where
  "inspection enable_show_output console inspection_start_time ssh cmds =
     (case (case cmds of
              None \<Rightarrow> (None, log_message Error NoCommandsConfigured ssh)
            | Some cs \<Rightarrow>
                if cs = [] then (None, log_message Error NoCommandsConfigured ssh)
                else inspection_commands enable_show_output console inspection_start_time
                       ssh cs) of
        (raised, ssh1) \<Rightarrow> (raised, inspection_finally ssh1))"

section \<open>The fleet scheduler: validation of the device records\<close>

text \<open>
  A device record is a dictionary from the column names of the device sheet to the cells,
  which the loader has read as \<^verbatim>\<open>str\<close>. \<^verbatim>\<open>str(device_info.get(f))\<close> is the cell, or the
  text \<^verbatim>\<open>None\<close> when the record has no such key.
\<close>

type_synonym device_info = "(string \<times> pystr) list"

definition required_fields :: "string list" where
  "required_fields = [''device_type'', ''host'', ''ip'', ''username'', ''port'']"

definition str_get :: "device_info \<Rightarrow> string \<Rightarrow> pystr" where
  "str_get device_info f = (case map_of device_info f of None \<Rightarrow> ascii ''None'' | Some v \<Rightarrow> v)"

definition missing_fields :: "device_info \<Rightarrow> string list" where
  "missing_fields device_info =
     filter (\<lambda>f. py_strip (str_get device_info f) = []) required_fields"

text \<open>
  What the submission loop does with each record, in order: a warning that names the
  missing fields, or the submission of \<^verbatim>\<open>inspection\<close> (which opens the session) to the
  pool, with a copy of the record to which the connection timeout (the number 15, written
  here by its text) is added. After a submission the loop reads \<^verbatim>\<open>device_info['host']\<close>,
  which raises when the record has no such key and ends the loop. The result is what was
  done and the exception that ended it, if any.
\<close>

datatype scheduled = SkippedWithWarning "string list" device_info | Submitted device_info

datatype scheduler_error = KeyError string | ValueError

fun submit_loop :: "device_info list \<Rightarrow> scheduled list \<times> scheduler_error option" where
  "submit_loop [] = ([], None)"
| "submit_loop (device_info # devices_info) =
     (if missing_fields device_info \<noteq> []
      then (case submit_loop devices_info of
              (done, raised) \<Rightarrow>
                (SkippedWithWarning (missing_fields device_info) device_info # done, raised))
      else
        (case map_of device_info ''host'' of
           None \<Rightarrow>
             ([Submitted ((''conn_timeout'', ascii ''15'') # device_info)], Some (KeyError ''host''))
         | Some host \<Rightarrow>
             (case submit_loop devices_info of
                (done, raised) \<Rightarrow>
                  (Submitted ((''conn_timeout'', ascii ''15'') # device_info) # done, raised))))"

text \<open>
  The pool is created for \<^verbatim>\<open>min(len(devices_info), cpu_count * 5, 200)\<close> workers, and its
  constructor raises for 0 workers, that is, for an empty list of devices.
\<close>

definition submit_devices :: "device_info list \<Rightarrow> scheduled list \<times> scheduler_error option" where
  "submit_devices devices_info =
     (if devices_info = [] then ([], Some ValueError) else submit_loop devices_info)"

declare inspection_commands.simps(2) [simp del]

section \<open>Sessions used as examples\<close>

definition idle :: session where
  "idle = \<lparr>script = [], clock = 0, remote_conn = Has (Some (Channel (Has False))),
           disconnect_raises = None, events = []\<rparr>"

definition no_channel :: session where
  "no_channel = idle\<lparr>remote_conn := Has None\<rparr>"

definition closed_channel :: session where
  "closed_channel = idle\<lparr>remote_conn := Has (Some (Channel (Has True)))\<rparr>"

definition broken_channel :: session where
  "broken_channel =
     idle\<lparr>remote_conn := Has (Some (Channel (Raising (OtherException (ascii ''boom'')))))\<rparr>"

definition no_port_column :: device_info where
  "no_port_column =
     [(''device_type'', ascii ''huawei''), (''host'', ascii ''sw1''),
      (''ip'', ascii ''10.0.0.1''), (''username'', ascii ''admin'')]"

definition blank_username :: device_info where
  "blank_username =
     [(''device_type'', ascii ''huawei''), (''host'', ascii ''sw1''),
      (''ip'', ascii ''10.0.0.1''), (''username'', ascii '' ''), (''port'', ascii ''22'')]"

text \<open>
  A pager that shows its marker once and then answers every keystroke with nothing, one
  second per reply.
\<close>

definition stuck_pager :: session where
  "stuck_pager =
     idle\<lparr>script :=
       [Reply (Inr (ascii ''line 1 --More--'')) 1 False,
        Reply (Inr []) 1 False, Reply (Inr []) 1 False, Reply (Inr []) 1 False,
        Reply (Inr []) 1 False, Reply (Inr []) 1 False]\<rparr>"

text \<open>
  The same pager, answering at once until its fifth empty reply, which takes eleven
  seconds.
\<close>

definition hung_pager :: session where
  "hung_pager =
     idle\<lparr>script :=
       [Reply (Inr (ascii ''line 1 --More--'')) 1 False,
        Reply (Inr []) 0 False, Reply (Inr []) 0 False, Reply (Inr []) 0 False,
        Reply (Inr []) 0 False, Reply (Inr []) 11 False]\<rparr>"

text \<open>A session whose clock stands twelve seconds after the start.\<close>

definition late :: session where
  "late = idle\<lparr>clock := 12\<rparr>"

text \<open>A reply of the device that is a text matching one of the error patterns.\<close>

definition error_reply :: "reply \<Rightarrow> bool" where
  "error_reply r = (case r_result r of Inl e \<Rightarrow> False | Inr s \<Rightarrow> has_error s)"

text \<open>
  A device that knows neither \<^verbatim>\<open>screen-length disable\<close> nor \<^verbatim>\<open>screen-length 0\<close> and
  accepts \<^verbatim>\<open>screen-length 0 temporary\<close> silently.
\<close>

definition other_dialect :: session where
  "other_dialect =
     idle\<lparr>script :=
       [Reply (Inr (ascii ''% Unrecognized command'')) 1 False,
        Reply (Inr (ascii ''Invalid command'')) 1 False,
        Reply (Inr []) 1 False]\<rparr>"

text \<open>
  Sessions at second 600 and at second 595 of a task that started at second 0, with a
  silent device.
\<close>

definition expired :: session where
  "expired = idle\<lparr>clock := 600\<rparr>"

definition almost_out :: session where
  "almost_out = idle\<lparr>clock := 595\<rparr>"


text \<open>
  A console that prints everything, and one on which printing fails (a terminal whose
  encoding cannot represent the text, say).
\<close>

definition quiet :: "pystr \<Rightarrow> pystr \<Rightarrow> exn option" where
  "quiet cmd out = None"



text \<open>
  A pager that shows its marker after one second and then takes ten seconds for each of
  four further pages.
\<close>

definition slow_pager :: session where
  "slow_pager =
     idle\<lparr>script :=
       [Reply (Inr (ascii ''1 --More--'')) 1 False,
        Reply (Inr (ascii ''2'')) 10 False,
        Reply (Inr (ascii ''3'')) 10 False,
        Reply (Inr (ascii ''4'')) 10 False,
        Reply (Inr (ascii ''5'')) 10 False]\<rparr>"

section \<open>Properties\<close>

subsection \<open>Blank commands\<close>

lemma py_replace_absent:
  "old \<noteq> [] \<Longrightarrow> hd old \<notin> set s \<Longrightarrow> py_replace old new s = s"
  by (induction old new s rule: py_replace.induct) (auto simp: prefix_def neq_Nil_conv)

lemma py_strip_all_space:
  assumes "list_all py_isspace s"
  shows "py_strip s = []"
proof -
  from assms have d: "dropWhile py_isspace s = []"
    by (induction s) simp_all
  show ?thesis
    unfolding py_strip_def d by simp
qed

lemma strip_or_empty_blank:
  assumes "list_all py_isspace cmd"
  shows "strip_or_empty cmd = []"
proof -
  have "\<not> py_isspace 0x5F" by (simp add: py_isspace_def)
  with assms have "hd (ascii ''_x000d_'') \<notin> set cmd"
    by (auto simp: ascii_def list_all_iff)
  then have "py_replace (ascii ''_x000d_'') [] cmd = cmd"
    by (intro py_replace_absent) (simp_all add: ascii_def)
  moreover have "list_all py_isspace (filter (\<lambda>c. c \<noteq> 0xD \<and> c \<noteq> 0xA \<and> c \<noteq> 0x9) cmd)"
    using assms by (simp add: list_all_iff)
  ultimately show ?thesis
    by (simp add: strip_or_empty_def py_strip_all_space)
qed

lemma skip_blank_list:
  "list_all (list_all py_isspace) cmds \<Longrightarrow>
   inspection_commands enable_show_output console t0 ssh cmds =
     (None, ssh\<lparr>events := events ssh @ replicate (length cmds) (Log Debug SkipEmptyCommand)\<rparr>)"
proof (induction cmds arbitrary: ssh)
  case Nil
  then show ?case by simp
next
  case (Cons cmd cmds)
  then show ?case
    by (simp add: inspection_commands.simps(2) strip_or_empty_blank log_message_def
                  replicate_append_same)
qed

text \<open>
  C9. A command that is empty or consists of white space only is never sent: given such a
  command, \<^verbatim>\<open>handle_pagination\<close> returns the skip text and leaves the session as it was
  (nothing is written); the loop of \<^verbatim>\<open>inspection\<close> goes on to the next command with
  nothing but a debug line recorded, without calling the pagination engine; so a list of
  \<open>n\<close> such commands leaves \<open>n\<close> debug lines and nothing else.
\<close>

theorem blank_command_never_sent:
  assumes "list_all py_isspace cmd"
  shows "handle_pagination ssh cmd timeout_per_cmd max_page = (Inr skip_msg, ssh) \<and>
         inspection_commands enable_show_output console t0 ssh (cmd # cmds) =
           inspection_commands enable_show_output console t0 (log_message Debug SkipEmptyCommand ssh) cmds \<and>
         inspection_commands enable_show_output console t0 ssh (replicate n cmd) =
           (None, ssh\<lparr>events := events ssh @ replicate n (Log Debug SkipEmptyCommand)\<rparr>)"
proof -
  have "list_all (list_all py_isspace) (replicate n cmd)"
    using assms by (simp add: list_all_iff)
  from skip_blank_list [OF this] show ?thesis
    using assms
    by (simp add: handle_pagination_def inspection_commands.simps(2) strip_or_empty_blank)
qed

theorem blank_command_never_sent_witness:
  "list_all py_isspace [0x20, 0x9, 0x3000] \<and>
   handle_pagination idle [0x20, 0x9, 0x3000] 10 200 = (Inr skip_msg, idle) \<and>
   events (snd (inspection_commands (ascii ''n'') quiet 0 idle (replicate 2 [0x20, 0x9, 0x3000]))) =
     replicate 2 (Log Debug SkipEmptyCommand)"
proof -
  have h: "list_all py_isspace [0x20, 0x9, 0x3000]"
    by (simp add: py_isspace_def)
  from blank_command_never_sent [OF h, of idle 10 200 "ascii ''n''" quiet 0 "[]" 2]
  have "handle_pagination idle [0x20, 0x9, 0x3000] 10 200 = (Inr skip_msg, idle)"
    and "inspection_commands (ascii ''n'') quiet 0 idle (replicate 2 [0x20, 0x9, 0x3000]) =
           (None, idle\<lparr>events := events idle @ replicate 2 (Log Debug SkipEmptyCommand)\<rparr>)"
    by blast+
  then have "handle_pagination idle [0x20, 0x9, 0x3000] 10 200 = (Inr skip_msg, idle)"
    and "events (snd (inspection_commands (ascii ''n'') quiet 0 idle (replicate 2 [0x20, 0x9, 0x3000]))) =
           replicate 2 (Log Debug SkipEmptyCommand)"
    by (simp_all add: idle_def)
  with h show ?thesis by blast
qed

subsection \<open>The channel test\<close>

text \<open>
  C10. \<^verbatim>\<open>channel_closed\<close> always returns a truth value: an exception raised while the
  channel is inspected is turned into \<open>True\<close>. It is \<open>True\<close> when the session has no
  channel object (the attribute is absent or \<^verbatim>\<open>None\<close>), when the channel reports closed
  and when inspecting it raises; it is \<open>False\<close> for a channel that reports open. It reads
  the channel object only (two sessions with the same channel object get the same
  answer), and as a function from the session to a truth value it writes nothing.
\<close>

theorem channel_closed_total:
  "(remote_conn ssh = Absent \<or> remote_conn ssh = Has None \<longrightarrow> channel_closed ssh) \<and>
   (\<forall>rc. remote_conn ssh = Has (Some rc) \<and> ch_closed rc = Has True \<longrightarrow> channel_closed ssh) \<and>
   (\<forall>e. channel_closed_try ssh = Inl e \<longrightarrow> channel_closed ssh) \<and>
   (\<forall>rc. remote_conn ssh = Has (Some rc) \<and> ch_closed rc = Has False \<longrightarrow> \<not> channel_closed ssh) \<and>
   (\<forall>ssh'. remote_conn ssh' = remote_conn ssh \<longrightarrow> channel_closed ssh' = channel_closed ssh)"
  by (auto simp: channel_closed_def channel_closed_try_def
           split: attr.splits option.splits sum.splits)

theorem channel_closed_total_witness:
  "channel_closed no_channel \<and> channel_closed closed_channel \<and>
   channel_closed_try broken_channel = Inl (OtherException (ascii ''boom'')) \<and>
   channel_closed broken_channel \<and> \<not> channel_closed idle \<and>
   channel_closed (closed_channel\<lparr>clock := 5\<rparr>)"
proof -
  have 1: "remote_conn no_channel = Has None"
    and 2: "remote_conn closed_channel = Has (Some (Channel (Has True)))"
    and 3: "channel_closed_try broken_channel = Inl (OtherException (ascii ''boom''))"
    and 4: "remote_conn idle = Has (Some (Channel (Has False)))"
    and 5: "remote_conn (closed_channel\<lparr>clock := 5\<rparr>) = remote_conn closed_channel"
    by (simp_all add: no_channel_def closed_channel_def broken_channel_def idle_def
                      channel_closed_try_def)
  from channel_closed_total [of no_channel] 1 have "channel_closed no_channel" by simp
  moreover from channel_closed_total [of closed_channel] 2 5
  have "channel_closed closed_channel" and "channel_closed (closed_channel\<lparr>clock := 5\<rparr>)"
    by simp_all
  moreover from channel_closed_total [of broken_channel] 3 have "channel_closed broken_channel"
    by blast
  moreover from channel_closed_total [of idle] 4 have "\<not> channel_closed idle" by simp
  ultimately show ?thesis using 3 by blast
qed

subsection \<open>Large output\<close>

lemma big_not_no_output:
  "cmd_clean \<in> set BIG_OUTPUT_CMDS \<Longrightarrow> cmd_clean \<noteq> [] \<and> cmd_clean \<notin> set NO_OUTPUT_CMDS"
  by (auto simp: BIG_OUTPUT_CMDS_def NO_OUTPUT_CMDS_def ascii_def)

lemma clean_display_interface:
  "strip_or_empty (ascii ''display interface'') = ascii ''display interface''"
  by (simp add: strip_or_empty_def ascii_def py_strip_def py_isspace_def)

subsection \<open>Validation of the device records\<close>

lemma blank_field_is_missing:
  assumes "map_of device_info f = Some v" and "list_all py_isspace v" and "f \<in> set required_fields"
  shows "f \<in> set (missing_fields device_info)"
  using assms by (simp add: missing_fields_def str_get_def py_strip_all_space)

lemma missing_device_not_submitted:
  "missing_fields device_info \<noteq> [] \<Longrightarrow>
   fst (submit_devices (device_info # devices_info)) =
     SkippedWithWarning (missing_fields device_info) device_info # fst (submit_loop devices_info)"
  by (simp add: submit_devices_def split: prod.splits)

text \<open>
  C4, at a record that lacks one of the required fields altogether (a device sheet
  without the column \<^verbatim>\<open>port\<close>): \<^verbatim>\<open>str(device_info.get('port'))\<close> is the text \<^verbatim>\<open>None\<close>,
  which is not blank, so no field is reported missing and the device is submitted to the
  pool, where \<^verbatim>\<open>inspection\<close> opens a session for it. A field that is present and blank
  is reported, and that device is skipped with the warning.
\<close>

theorem absent_field_is_not_detected:
  "map_of no_port_column ''port'' = None \<and>
   missing_fields no_port_column = [] \<and>
   submit_devices [no_port_column] =
     ([Submitted ((''conn_timeout'', ascii ''15'') # no_port_column)], None) \<and>
   submit_devices [blank_username] = ([SkippedWithWarning [''username''] blank_username], None)"
  by (simp add: submit_devices_def no_port_column_def blank_username_def missing_fields_def
                required_fields_def str_get_def ascii_def py_strip_def py_isspace_def)

subsection \<open>The paging loop: basic facts\<close>

lemma paging_loop_Break:
  "paging_body cmd cmd_clean t max_page start st ssh = Break result ssh' \<Longrightarrow>
   paging_loop cmd cmd_clean t max_page start st ssh = (result, ssh')"
  by (simp add: paging_loop.simps)

lemma paging_loop_Continue:
  "paging_body cmd cmd_clean t max_page start st ssh = Continue st' ssh' \<Longrightarrow>
   paging_loop cmd cmd_clean t max_page start st ssh =
     paging_loop cmd cmd_clean t max_page start st' ssh'"
  by (subst paging_loop.simps) simp

lemma paging_body_page_count:
  assumes "paging_body cmd cmd_clean t max_page start st ssh = Continue st' ssh'"
  shows "page_count st' = Suc (page_count st) \<and> page_count st' \<le> max_page"
  using assms
  by (auto simp: paging_body_def Let_def split: if_splits option.splits prod.splits sum.splits)

lemma send_command_timing_clock:
  assumes "send_command_timing text rt ssh = (r, ssh')"
    and "list_all (\<lambda>r. r_took r \<le> d) (script ssh)" and "0 \<le> d"
  shows "clock ssh' \<le> clock ssh + d \<and> list_all (\<lambda>r. r_took r \<le> d) (script ssh')"
  using assms
  by (cases "script ssh") (auto simp: send_command_timing_def silent_def Let_def)

lemma turn_page_clock:
  assumes "turn_page cmd p rt ssh = (r, ssh')"
    and "list_all (\<lambda>r. r_took r \<le> d) (script ssh)" and "0 \<le> d"
  shows "clock ssh' \<le> clock ssh + d \<and> list_all (\<lambda>r. r_took r \<le> d) (script ssh')"
proof -
  have "clock (log_message lv l ssh) = clock ssh" "script (log_message lv l ssh) = script ssh"
    for lv l
    by (simp_all add: log_message_def)
  with assms show ?thesis
    by (auto simp: turn_page_def split: if_splits dest!: send_command_timing_clock [where d = d])
qed

lemma paging_body_clock:
  assumes "list_all (\<lambda>r. r_took r \<le> d) (script ssh)" and "0 \<le> d" and "0 \<le> t"
    and "clock ssh - start \<le> t + d"
  shows "paging_body cmd cmd_clean t max_page start st ssh = Continue st' ssh' \<Longrightarrow>
           clock ssh' - start \<le> t + d \<and> list_all (\<lambda>r. r_took r \<le> d) (script ssh')"
    and "paging_body cmd cmd_clean t max_page start st ssh = Break result ssh' \<Longrightarrow>
           clock ssh' - start \<le> t + d"
  using assms
  by (auto simp: paging_body_def Let_def
           split: if_splits option.splits prod.splits sum.splits
           dest!: turn_page_clock [where d = d])

lemma paging_loop_clock:
  assumes "list_all (\<lambda>r. r_took r \<le> d) (script ssh)" and "0 \<le> d" and "0 \<le> t"
    and "clock ssh - start \<le> t + d"
  shows "clock (snd (paging_loop cmd cmd_clean t max_page start st ssh)) - start \<le> t + d"
  using assms
proof (induction cmd cmd_clean t max_page start st ssh rule: paging_loop.induct)
  case (1 cmd cmd_clean t max_page start st ssh)
  show ?case
  proof (cases "paging_body cmd cmd_clean t max_page start st ssh")
    case (Continue st' ssh')
    from paging_body_clock(1) [OF "1.prems" Continue]
    have "clock ssh' - start \<le> t + d" "list_all (\<lambda>r. r_took r \<le> d) (script ssh')"
      by simp_all
    from "1.IH" [OF Continue this(2) "1.prems"(2,3) this(1)] show ?thesis
      by (simp add: paging_loop_Continue [OF Continue])
  next
    case (Break result ssh')
    from paging_body_clock(2) [OF "1.prems" Break] show ?thesis
      by (simp add: paging_loop_Break [OF Break])
  qed
qed

lemma paging_iterations_enough:
  "Suc max_page - page_count st \<le> n \<Longrightarrow> 0 < n \<Longrightarrow>
   paging_iterations n cmd cmd_clean t max_page start st ssh =
     Some (paging_loop cmd cmd_clean t max_page start st ssh)"
proof (induction n arbitrary: st ssh)
  case 0
  then show ?case by simp
next
  case (Suc n)
  show ?case
  proof (cases "paging_body cmd cmd_clean t max_page start st ssh")
    case (Continue st' ssh')
    from paging_body_page_count [OF Continue]
    have pc: "page_count st' = Suc (page_count st)" "page_count st' \<le> max_page"
      by simp_all
    with Suc.prems have "Suc max_page - page_count st' \<le> n" "0 < n"
      by arith+
    from Suc.IH [OF this] show ?thesis
      by (simp add: Continue paging_loop_Continue [OF Continue])
  next
    case (Break result ssh')
    then show ?thesis
      by (simp add: paging_loop_Break [OF Break])
  qed
qed

subsection \<open>Text that differs in surrounding white space only\<close>

lemma sublist_dropWhile:
  "p \<noteq> [] \<Longrightarrow> \<not> P (hd p) \<Longrightarrow> sublist p (dropWhile P s) \<longleftrightarrow> sublist p s"
proof (induction s)
  case Nil
  then show ?case by simp
next
  case (Cons x xs)
  show ?case
  proof (cases "P x")
    case True
    with Cons.prems have "\<not> prefix p (x # xs)"
      by (cases p) auto
    with True Cons show ?thesis
      by (simp add: sublist_Cons_right)
  next
    case False
    then show ?thesis by simp
  qed
qed

lemma sublist_py_strip:
  assumes "p \<noteq> []" and "\<not> py_isspace (hd p)" and "\<not> py_isspace (last p)"
  shows "sublist p (py_strip s) \<longleftrightarrow> sublist p s"
proof -
  have "sublist p (py_strip s) \<longleftrightarrow>
        sublist (rev p) (dropWhile py_isspace (rev (dropWhile py_isspace s)))"
    unfolding py_strip_def using sublist_rev [of p "rev (dropWhile py_isspace (rev (dropWhile py_isspace s)))"]
    by (simp del: sublist_rev)
  also have "\<dots> \<longleftrightarrow> sublist (rev p) (rev (dropWhile py_isspace s))"
    using assms by (intro sublist_dropWhile) (simp_all add: hd_rev)
  also have "\<dots> \<longleftrightarrow> sublist p (dropWhile py_isspace s)"
    by simp
  also have "\<dots> \<longleftrightarrow> sublist p s"
    using assms by (intro sublist_dropWhile)
  finally show ?thesis .
qed

lemma dropWhile_concat_map:
  assumes sp: "\<And>c. P c \<Longrightarrow> f c = [c]"
    and ns: "\<And>c. \<not> P c \<Longrightarrow> f c \<noteq> [] \<and> \<not> P (hd (f c))"
  shows "dropWhile P (concat (map f s)) = concat (map f (dropWhile P s))"
proof (induction s)
  case Nil
  show ?case by simp
next
  case (Cons x xs)
  show ?case
  proof (cases "P x")
    case True
    then have "f x = [x]" by (rule sp)
    with True Cons show ?thesis by simp
  next
    case False
    from ns [OF False] obtain y ys where fx: "f x = y # ys" and "\<not> P y"
      by (cases "f x") simp_all
    then have "dropWhile P (concat (map f (x # xs))) = concat (map f (x # xs))"
      by simp
    with False show ?thesis by simp
  qed
qed

lemma lower_cp_space: "py_isspace c \<Longrightarrow> lower_cp c = [c]"
  by (auto simp: lower_cp_def py_isspace_def)

lemma lower_cp_nonspace:
  "\<not> py_isspace c \<Longrightarrow> lower_cp c \<noteq> [] \<and> \<not> py_isspace (hd (lower_cp c)) \<and>
     \<not> py_isspace (last (lower_cp c))"
  by (auto simp: lower_cp_def py_isspace_def)

lemma py_lower_strip: "py_lower (py_strip s) = py_strip (py_lower s)"
proof -
  let ?P = py_isspace
  have 1: "dropWhile ?P (concat (map lower_cp s)) = concat (map lower_cp (dropWhile ?P s))" for s
    by (rule dropWhile_concat_map) (simp_all add: lower_cp_space lower_cp_nonspace)
  have 2: "dropWhile ?P (concat (map (rev \<circ> lower_cp) s)) =
           concat (map (rev \<circ> lower_cp) (dropWhile ?P s))" for s
    by (rule dropWhile_concat_map) (simp_all add: lower_cp_space lower_cp_nonspace hd_rev)
  have 3: "rev (concat (map lower_cp s)) = concat (map (rev \<circ> lower_cp) (rev s))" for s
    by (simp add: rev_concat rev_map)
  have 4: "rev (concat (map (rev \<circ> lower_cp) s)) = concat (map lower_cp (rev s))" for s
    by (simp add: rev_concat rev_map comp_def)
  show ?thesis
    by (simp only: py_lower_def py_strip_def 1 2 3 4)
qed

lemma clean_patterns:
  "map strip_or_empty PAGINATION_PATTERNS =
     [ascii ''---- More ----'', ascii ''---- More ----'', ascii ''---- More ----'',
      ascii ''---- More ----'', ascii ''--More--'', ascii ''<--- More --->'',
      ascii ''<Press ENTER to continue>'']"
  by (simp add: PAGINATION_PATTERNS_def strip_or_empty_def ascii_def py_strip_def py_isspace_def)

lemmas eval_text = ascii_def py_strip_def py_isspace_def py_lower_def lower_cp_def

lemma unrecognized_strip: "unrecognized (py_strip s) \<longleftrightarrow> unrecognized s"
  unfolding unrecognized_def
  by (subst (1 2) sublist_py_strip) (simp_all add: ascii_def py_isspace_def)

lemma find_marker_strip: "find_marker (py_strip s) = find_marker s"
proof -
  have a: "sublist p (py_strip s) \<longleftrightarrow> sublist p s"
    if "p \<in> set (map strip_or_empty PAGINATION_PATTERNS)" for p
    using that unfolding clean_patterns
    by (intro sublist_py_strip) (auto simp: ascii_def py_isspace_def)
  have b: "sublist (py_lower p) (py_lower (py_strip s)) \<longleftrightarrow> sublist (py_lower p) (py_lower s)"
    if "p \<in> set (map strip_or_empty PAGINATION_PATTERNS)" for p
    unfolding py_lower_strip
    using that unfolding clean_patterns
    by (intro sublist_py_strip) (auto simp: eval_text)
  show ?thesis
    unfolding find_marker_def
    by (rule find_cong) (simp_all add: a b del: set_map)
qed

lemma same_text_same_guards:
  assumes "py_strip s = py_strip s'"
  shows "unrecognized s \<longleftrightarrow> unrecognized s'" and "find_marker s = find_marker s'"
  using assms unrecognized_strip [of s] unrecognized_strip [of s']
    find_marker_strip [of s] find_marker_strip [of s']
  by simp_all

subsection \<open>One page after the other\<close>

lemma send_scripted:
  assumes "script ssh = Reply res d c # rest"
  shows "send_command_timing text rt ssh =
           (res, ssh\<lparr>script := rest, clock := clock ssh + d,
                    remote_conn := (if c then Has (Some (Channel (Has True))) else remote_conn ssh),
                    events := events ssh @ [Sent text rt]\<rparr>)"
  using assms by (simp add: send_command_timing_def)

lemma find_in_set: "find Q xs = Some x \<Longrightarrow> x \<in> set xs"
  by (auto simp: find_Some_iff)

lemma marker_cases:
  assumes "find_marker s = Some p"
  shows "p = ascii ''---- More ----'' \<or> p = ascii ''--More--'' \<or> p = ascii ''<--- More --->'' \<or>
         p = ascii ''<Press ENTER to continue>''"
proof -
  from assms have "p \<in> set (map strip_or_empty PAGINATION_PATTERNS)"
    unfolding find_marker_def by (rule find_in_set)
  then show ?thesis
    unfolding clean_patterns by auto
qed

lemma turn_page_marker:
  assumes "find_marker s = Some p" and "script ssh = Reply res d c # rest"
  shows "\<exists>ssh'. turn_page cmd p t ssh = (res, ssh') \<and> script ssh' = rest \<and>
           clock ssh' = clock ssh + d \<and> (\<exists>key. writes ssh' = writes ssh @ [(key, t)])"
proof -
  have s: "script (log_message lv l ssh) = Reply res d c # rest" for lv l
    using assms(2) by (simp add: log_message_def)
  from marker_cases [OF assms(1)]
  consider "p \<in> set space_markers" | "p \<notin> set space_markers" "p = ascii ''<Press ENTER to continue>''"
    by (auto simp: space_markers_def)
  then show ?thesis
  proof cases
    case 1
    then have "turn_page cmd p t ssh =
                 send_command_timing (ascii '' '') t (log_message Info (PagedWithSpace cmd p) ssh)"
      by (simp add: turn_page_def)
    also note send_scripted [OF s]
    finally show ?thesis
      by (simp add: writes_def log_message_def)
  next
    case 2
    then have "turn_page cmd p t ssh =
                 send_command_timing [0xA] t (log_message Info (PagedWithEnter cmd p) ssh)"
      by (simp add: turn_page_def)
    also note send_scripted [OF s]
    finally show ?thesis
      by (simp add: writes_def log_message_def)
  qed
qed

lemma current_max_repeat_values:
  "current_max_repeat cc = (if cc \<in> set BIG_OUTPUT_CMDS then 10 else 5)"
  by (simp add: current_max_repeat_def MAX_REPEAT_PAGE_def)

lemma body_changed:
  assumes "py_strip S \<noteq> py_strip P0" and "\<not> unrecognized S" and "find_marker S = Some p"
    and "clock ssh - start \<le> t" and "script ssh = Reply (Inr page) d c # rest" and "pc < mp"
  shows "\<exists>ssh'. paging_body cmd cc t mp start
                  \<lparr>show_text = S, prev_output = P0, repeat_count = r, page_count = pc\<rparr> ssh =
                Continue \<lparr>show_text = S @ page, prev_output = S, repeat_count = 0,
                          page_count = Suc pc\<rparr> ssh' \<and>
           script ssh' = rest \<and> clock ssh' = clock ssh + d \<and>
           length (writes ssh') = Suc (length (writes ssh))"
proof -
  from turn_page_marker [OF assms(3,5), of cmd t] obtain ssh' key
    where "turn_page cmd p t ssh = (Inr page, ssh')" "script ssh' = rest"
      "clock ssh' = clock ssh + d" "writes ssh' = writes ssh @ [(key, t)]"
    by blast
  with assms show ?thesis
    by (simp add: paging_body_def current_max_repeat_values)
qed

lemma body_unchanged:
  assumes "py_strip S = py_strip P" and "\<not> unrecognized P" and "find_marker P = Some p"
    and "Suc r < current_max_repeat cc"
    and "clock ssh - start \<le> t" and "script ssh = Reply (Inr page) d c # rest" and "pc < mp"
  shows "\<exists>ssh'. paging_body cmd cc t mp start
                  \<lparr>show_text = S, prev_output = P, repeat_count = r, page_count = pc\<rparr> ssh =
                Continue \<lparr>show_text = S @ page, prev_output = P, repeat_count = Suc r,
                          page_count = Suc pc\<rparr> ssh' \<and>
           script ssh' = rest \<and> clock ssh' = clock ssh + d \<and>
           length (writes ssh') = Suc (length (writes ssh))"
proof -
  from same_text_same_guards [OF assms(1)] assms(2,3)
  have g: "\<not> unrecognized S" "find_marker S = Some p"
    by simp_all
  from turn_page_marker [OF g(2) assms(6), of cmd t] obtain ssh' key
    where "turn_page cmd p t ssh = (Inr page, ssh')" "script ssh' = rest"
      "clock ssh' = clock ssh + d" "writes ssh' = writes ssh @ [(key, t)]"
    by blast
  with assms g show ?thesis
    by (simp add: paging_body_def)
qed

lemma body_repeat_break:
  assumes "py_strip S = py_strip P" and "\<not> unrecognized P"
    and "current_max_repeat cc \<le> Suc r"
  shows "paging_body cmd cc t mp start
           \<lparr>show_text = S, prev_output = P, repeat_count = r, page_count = pc\<rparr> ssh =
         Break (Inr (S @ deadlock_warning)) ssh"
proof -
  from same_text_same_guards(1) [OF assms(1)] assms(2) have "\<not> unrecognized S"
    by simp
  with assms show ?thesis
    by (simp add: paging_body_def)
qed

lemma unchanged_run:
  assumes "\<forall>j\<le>length rs. py_strip (S @ concat (take j texts)) = py_strip P"
    and "\<not> unrecognized P" and "find_marker P = Some p"
    and "Suc r + length rs = current_max_repeat cc"
    and "script ssh = rs @ rest" and "map r_result rs = map Inr texts"
    and "\<forall>j<length rs. clock ssh + sum_list (map r_took (take j rs)) - start \<le> t"
    and "pc + length rs \<le> mp"
  shows "\<exists>ssh'. paging_loop cmd cc t mp start
                  \<lparr>show_text = S, prev_output = P, repeat_count = r, page_count = pc\<rparr> ssh =
                (Inr (S @ concat texts @ deadlock_warning), ssh') \<and>
           script ssh' = rest \<and> clock ssh' = clock ssh + sum_list (map r_took rs) \<and>
           length (writes ssh') = length (writes ssh) + length rs"
  using assms
proof (induction rs arbitrary: texts S r pc ssh)
  case Nil
  then have "py_strip S = py_strip P" "texts = []" "current_max_repeat cc \<le> Suc r"
    by simp_all
  with Nil.prems(2,5) show ?case
    by (simp add: paging_loop_Break [OF body_repeat_break])
next
  case (Cons \<rho> rs)
  from Cons.prems(6) obtain page texts' where texts: "texts = page # texts'"
    and page: "r_result \<rho> = Inr page" and rest_texts: "map r_result rs = map Inr texts'"
    by (cases texts) auto
  from page have \<rho>: "\<rho> = Reply (Inr page) (r_took \<rho>) (r_closes \<rho>)"
    by (cases \<rho>) simp
  from Cons.prems(1) have same: "py_strip S = py_strip P"
    by (auto dest: spec [where x = 0])
  from Cons.prems(7) have now: "clock ssh - start \<le> t"
    by (auto dest: spec [where x = 0])
  from Cons.prems(5) \<rho> have scr: "script ssh = Reply (Inr page) (r_took \<rho>) (r_closes \<rho>) # rs @ rest"
    by simp
  from Cons.prems(4) have less: "Suc r < current_max_repeat cc"
    by simp
  from Cons.prems(8) have pc: "pc < mp"
    by simp
  from body_unchanged [OF same Cons.prems(2,3) less now scr pc, of cmd]
  obtain ssh1 where
    step: "paging_body cmd cc t mp start
             \<lparr>show_text = S, prev_output = P, repeat_count = r, page_count = pc\<rparr> ssh =
           Continue \<lparr>show_text = S @ page, prev_output = P, repeat_count = Suc r,
                     page_count = Suc pc\<rparr> ssh1"
    and ssh1: "script ssh1 = rs @ rest" "clock ssh1 = clock ssh + r_took \<rho>"
      "length (writes ssh1) = Suc (length (writes ssh))"
    by blast
  have 1: "\<forall>j\<le>length rs. py_strip ((S @ page) @ concat (take j texts')) = py_strip P"
  proof (intro allI impI)
    fix j assume "j \<le> length rs"
    with Cons.prems(1) have "py_strip (S @ concat (take (Suc j) texts)) = py_strip P"
      by simp
    then show "py_strip ((S @ page) @ concat (take j texts')) = py_strip P"
      by (simp add: texts)
  qed
  have 2: "\<forall>j<length rs. clock ssh1 + sum_list (map r_took (take j rs)) - start \<le> t"
  proof (intro allI impI)
    fix j assume "j < length rs"
    then have "Suc j < length (\<rho> # rs)"
      by simp
    with Cons.prems(7) have "clock ssh + sum_list (map r_took (take (Suc j) (\<rho> # rs))) - start \<le> t"
      by blast
    then show "clock ssh1 + sum_list (map r_took (take j rs)) - start \<le> t"
      by (simp add: ssh1 add.assoc)
  qed
  from Cons.prems(4) have 3: "Suc (Suc r) + length rs = current_max_repeat cc"
    by simp
  from Cons.prems(8) have 4: "Suc pc + length rs \<le> mp"
    by simp
  from Cons.IH [OF 1 Cons.prems(2,3) 3 ssh1(1) rest_texts 2 4]
  obtain ssh' where
    "paging_loop cmd cc t mp start
       \<lparr>show_text = S @ page, prev_output = P, repeat_count = Suc r, page_count = Suc pc\<rparr> ssh1 =
     (Inr ((S @ page) @ concat texts' @ deadlock_warning), ssh')"
    "script ssh' = rest" "clock ssh' = clock ssh1 + sum_list (map r_took rs)"
    "length (writes ssh') = length (writes ssh1) + length rs"
    by blast
  then show ?case
    by (simp add: paging_loop_Continue [OF step] texts ssh1 add.assoc)
qed

lemma repeated_pages_run:
  assumes "length rs = current_max_repeat cc"
    and "script ssh = rs @ rest" and "map r_result rs = map Inr texts"
    and "py_strip S \<noteq> py_strip P0" and "\<not> unrecognized S" and "find_marker S \<noteq> None"
    and "\<forall>j\<in>{1..length rs}. py_strip (S @ concat (take j texts)) = py_strip S"
    and "\<forall>j<length rs. clock ssh + sum_list (map r_took (take j rs)) - start \<le> t"
    and "pc + length rs \<le> mp"
  shows "\<exists>ssh'. paging_loop cmd cc t mp start
                  \<lparr>show_text = S, prev_output = P0, repeat_count = r, page_count = pc\<rparr> ssh =
                (Inr (S @ concat texts @ deadlock_warning), ssh') \<and>
           script ssh' = rest \<and> clock ssh' = clock ssh + sum_list (map r_took rs) \<and>
           length (writes ssh') = length (writes ssh) + length rs"
proof -
  from assms(1) have "rs \<noteq> []"
    by (auto simp: current_max_repeat_values split: if_splits)
  then obtain \<rho> rs' where rs: "rs = \<rho> # rs'"
    by (cases rs) auto
  with assms(3) obtain page texts' where texts: "texts = page # texts'"
    and page: "r_result \<rho> = Inr page" and rest_texts: "map r_result rs' = map Inr texts'"
    by (cases texts) auto
  from page have \<rho>: "\<rho> = Reply (Inr page) (r_took \<rho>) (r_closes \<rho>)"
    by (cases \<rho>) simp
  from assms(6) obtain p where p: "find_marker S = Some p"
    by auto
  from assms(8) rs have now: "clock ssh - start \<le> t"
    by (auto dest: spec [where x = 0])
  from assms(2) rs \<rho> have scr: "script ssh = Reply (Inr page) (r_took \<rho>) (r_closes \<rho>) # rs' @ rest"
    by simp
  from assms(9) rs have pc: "pc < mp"
    by simp
  from body_changed [OF assms(4,5) p now scr pc, of cmd cc r]
  obtain ssh1 where
    step: "paging_body cmd cc t mp start
             \<lparr>show_text = S, prev_output = P0, repeat_count = r, page_count = pc\<rparr> ssh =
           Continue \<lparr>show_text = S @ page, prev_output = S, repeat_count = 0,
                     page_count = Suc pc\<rparr> ssh1"
    and ssh1: "script ssh1 = rs' @ rest" "clock ssh1 = clock ssh + r_took \<rho>"
      "length (writes ssh1) = Suc (length (writes ssh))"
    by blast
  have 1: "\<forall>j\<le>length rs'. py_strip ((S @ page) @ concat (take j texts')) = py_strip S"
  proof (intro allI impI)
    fix j assume "j \<le> length rs'"
    with rs have "Suc j \<in> {1..length rs}"
      by simp
    with assms(7) have "py_strip (S @ concat (take (Suc j) texts)) = py_strip S"
      by blast
    then show "py_strip ((S @ page) @ concat (take j texts')) = py_strip S"
      by (simp add: texts)
  qed
  have 2: "\<forall>j<length rs'. clock ssh1 + sum_list (map r_took (take j rs')) - start \<le> t"
  proof (intro allI impI)
    fix j assume "j < length rs'"
    with rs have "Suc j < length rs"
      by simp
    with assms(8) have "clock ssh + sum_list (map r_took (take (Suc j) rs)) - start \<le> t"
      by blast
    with rs have "clock ssh + sum_list (map r_took (take (Suc j) (\<rho> # rs'))) - start \<le> t"
      by simp
    then show "clock ssh1 + sum_list (map r_took (take j rs')) - start \<le> t"
      by (simp add: ssh1 add.assoc)
  qed
  from assms(1) rs have 3: "Suc 0 + length rs' = current_max_repeat cc"
    by simp
  from assms(9) rs have 4: "Suc pc + length rs' \<le> mp"
    by simp
  from unchanged_run [OF 1 assms(5) p 3 ssh1(1) rest_texts 2 4, of cmd]
  obtain ssh' where
    "paging_loop cmd cc t mp start
       \<lparr>show_text = S @ page, prev_output = S, repeat_count = 0, page_count = Suc pc\<rparr> ssh1 =
     (Inr ((S @ page) @ concat texts' @ deadlock_warning), ssh')"
    "script ssh' = rest" "clock ssh' = clock ssh1 + sum_list (map r_took rs')"
    "length (writes ssh') = length (writes ssh1) + length rs'"
    by blast
  then show ?thesis
    by (simp add: paging_loop_Continue [OF step] texts rs ssh1 add.assoc)
qed

text \<open>
  C1. In the standard paging loop, let an iteration begin with a new page (its text,
  stripped, differs from the stored one) that shows a pagination marker and no
  unrecognized-command text, and let each of the next replies, as many as the repeat
  ceiling, leave the accumulated text unchanged as the loop compares it (stripped). As
  long as these iterations take place, that is, the deadline is not passed when each of
  them checks it and the page ceiling is not reached, the loop ends after exactly that
  many unchanged pages, having written exactly that many keystrokes, and returns the
  accumulated text followed by the pagination-deadlock warning. The ceiling is
  \<^verbatim>\<open>MAX_REPEAT_PAGE\<close> = 5, and twice that, 10, for a command of the large-output set.
\<close>

theorem repeated_pages_end_paging:
  assumes "length rs = current_max_repeat cmd_clean"
    and "script ssh = rs @ rest" and "map r_result rs = map Inr texts"
    and "py_strip show \<noteq> py_strip prev" and "\<not> unrecognized show"
    and "find_marker show \<noteq> None"
    and "\<forall>j\<in>{1..length rs}. py_strip (show @ concat (take j texts)) = py_strip show"
    and "\<forall>j<length rs. clock ssh + sum_list (map r_took (take j rs)) - start \<le> timeout_per_cmd"
    and "pc + length rs \<le> max_page"
  shows "\<exists>ssh'. paging_loop cmd cmd_clean timeout_per_cmd max_page start
                  \<lparr>show_text = show, prev_output = prev, repeat_count = rc, page_count = pc\<rparr>
                  ssh =
                (Inr (show @ concat texts @ deadlock_warning), ssh') \<and>
           sublist deadlock_warning (show @ concat texts @ deadlock_warning) \<and>
           script ssh' = rest \<and>
           length (writes ssh') = length (writes ssh) + current_max_repeat cmd_clean \<and>
           current_max_repeat cmd_clean =
             (if cmd_clean \<in> set BIG_OUTPUT_CMDS then 2 * MAX_REPEAT_PAGE else MAX_REPEAT_PAGE) \<and>
           MAX_REPEAT_PAGE = 5"
proof -
  from repeated_pages_run [OF assms, of cmd rc]
  obtain ssh' where
    "paging_loop cmd cmd_clean timeout_per_cmd max_page start
       \<lparr>show_text = show, prev_output = prev, repeat_count = rc, page_count = pc\<rparr> ssh =
     (Inr (show @ concat texts @ deadlock_warning), ssh')"
    "script ssh' = rest" "length (writes ssh') = length (writes ssh) + length rs"
    by blast
  moreover have "sublist deadlock_warning (show @ concat texts @ deadlock_warning)"
    by (metis append.assoc sublist_append_leftI)
  ultimately show ?thesis
    using assms(1) by (auto simp: current_max_repeat_def MAX_REPEAT_PAGE_def)
qed

subsection \<open>Concrete runs\<close>

lemmas eval_sublist = sublist_code prefix_code

lemma standard_command_enters_loop:
  assumes "strip_or_empty cmd = cc" and "cc \<noteq> []" and "cc \<notin> set NO_OUTPUT_CMDS"
    and "cc \<notin> set BIG_OUTPUT_CMDS"
    and "script ssh = Reply (Inr show) d c # rest" and "\<not> unrecognized show"
  shows "handle_pagination ssh cmd t mp =
           paging_loop cmd cc t mp (clock ssh + d)
             \<lparr>show_text = show, prev_output = [], repeat_count = 0, page_count = 0\<rparr>
             (ssh\<lparr>script := rest, clock := clock ssh + d,
                  remote_conn := (if c then Has (Some (Channel (Has True))) else remote_conn ssh),
                  events := events ssh @ [Sent cmd t]\<rparr>)"
  using assms
  by (simp add: handle_pagination_def big_output_limits_def standard_paging_def
                send_scripted [OF assms(5)])

lemma clean_display_version:
  "strip_or_empty (ascii ''display version'') = ascii ''display version''"
  by (simp add: strip_or_empty_def ascii_def py_strip_def py_isspace_def)

lemma display_version_standard:
  "ascii ''display version'' \<noteq> []"
  "ascii ''display version'' \<notin> set NO_OUTPUT_CMDS"
  "ascii ''display version'' \<notin> set BIG_OUTPUT_CMDS"
  "current_max_repeat (ascii ''display version'') = 5"
  by (simp_all add: NO_OUTPUT_CMDS_def BIG_OUTPUT_CMDS_def current_max_repeat_values ascii_def)

lemma first_page_facts:
  "\<not> unrecognized (ascii ''line 1 --More--'')"
  "find_marker (ascii ''line 1 --More--'') = Some (ascii ''--More--'')"
  "py_strip (ascii ''line 1 --More--'') \<noteq> py_strip []"
  by (simp_all add: unrecognized_def find_marker_def clean_patterns eval_text eval_sublist)

lemma empty_pages_unchanged:
  "\<forall>j\<in>{1..length rs}. py_strip (S @ concat (take j (replicate n []))) = py_strip S"
  by simp

lemma below_five: "j < (5::nat) \<Longrightarrow> j = 0 \<or> j = 1 \<or> j = 2 \<or> j = 3 \<or> j = 4"
  by arith

theorem repeated_pages_end_paging_witness:
  "fst (handle_pagination stuck_pager (ascii ''display version'') 10 200) =
     Inr (ascii ''line 1 --More--'' @ deadlock_warning) \<and>
   length (writes (snd (handle_pagination stuck_pager (ascii ''display version'') 10 200))) = 6"
proof -
  let ?c = "ascii ''display version''"
  let ?show = "ascii ''line 1 --More--''"
  let ?rs = "replicate 5 (Reply (Inr []) 1 False)"
  define ssh1 where "ssh1 = stuck_pager\<lparr>script := ?rs, clock := clock stuck_pager + 1,
    remote_conn := (if False then Has (Some (Channel (Has True))) else remote_conn stuck_pager),
    events := events stuck_pager @ [Sent ?c 10]\<rparr>"
  have scr: "script stuck_pager = Reply (Inr ?show) 1 False # ?rs"
    by (simp add: stuck_pager_def idle_def numeral_eq_Suc)
  have enter: "handle_pagination stuck_pager ?c 10 200 =
      paging_loop ?c ?c 10 200 (clock stuck_pager + 1)
        \<lparr>show_text = ?show, prev_output = [], repeat_count = 0, page_count = 0\<rparr> ssh1"
    unfolding ssh1_def
    by (rule standard_command_enters_loop
          [OF clean_display_version display_version_standard(1,2,3) scr first_page_facts(1)])
  have 1: "length ?rs = current_max_repeat ?c"
    by (simp add: display_version_standard)
  have 2: "script ssh1 = ?rs @ []"
    by (simp add: ssh1_def)
  have 3: "map r_result ?rs = map Inr (replicate 5 [])"
    by simp
  have 4: "find_marker ?show \<noteq> None"
    by (simp add: first_page_facts)
  have 5: "\<forall>j<length ?rs. clock ssh1 + sum_list (map r_took (take j ?rs))
              - (clock stuck_pager + 1) \<le> 10"
    by (auto simp: ssh1_def numeral_eq_Suc take_Suc_conv_app_nth less_Suc_eq)
  have 6: "0 + length ?rs \<le> (200::nat)"
    by simp
  have w: "writes ssh1 = [(?c, 10)]"
    by (simp add: ssh1_def writes_def stuck_pager_def idle_def)
  from repeated_pages_end_paging
         [OF 1 2 3 first_page_facts(3,1) 4 empty_pages_unchanged 5 6, of ?c 0]
  obtain ssh' where
    "paging_loop ?c ?c 10 200 (clock stuck_pager + 1)
       \<lparr>show_text = ?show, prev_output = [], repeat_count = 0, page_count = 0\<rparr> ssh1 =
     (Inr (?show @ concat (replicate 5 []) @ deadlock_warning), ssh')"
    "length (writes ssh') = length (writes ssh1) + current_max_repeat ?c"
    by blast
  then show ?thesis
    by (simp add: enter w display_version_standard)
qed

subsection \<open>The deadline\<close>

lemma after_deadline_body:
  assumes "clock ssh - start > t"
  shows "paging_body cmd cc t mp start st ssh =
           Break (if unrecognized (show_text st) then Inr (show_text st)
                  else if current_max_repeat cc
                            \<le> (if py_strip (show_text st) = py_strip (prev_output st)
                                then repeat_count st + 1 else 0)
                  then Inr (show_text st @ deadlock_warning)
                  else Inr (show_text st @ timeout_warning)) ssh"
  using assms by (simp add: paging_body_def)

text \<open>
  C6, as the code has it. An iteration of the paging loop that begins with more than the
  timeout elapsed since the loop started is the last one, and it writes nothing. The text
  it returns ends with the timeout warning, unless the accumulated text shows an
  unrecognized command (it is returned as it is) or the repeat ceiling is reached in this
  very iteration (the deadlock warning is appended instead): both are checked before the
  deadline.
\<close>

theorem deadline_ends_paging:
  assumes "clock ssh - pagination_start_time > timeout_per_cmd"
  shows "paging_loop cmd cmd_clean timeout_per_cmd max_page pagination_start_time st ssh =
           (if unrecognized (show_text st) then Inr (show_text st)
            else if current_max_repeat cmd_clean
                      \<le> (if py_strip (show_text st) = py_strip (prev_output st)
                          then repeat_count st + 1 else 0)
            then Inr (show_text st @ deadlock_warning)
            else Inr (show_text st @ timeout_warning), ssh) \<and>
         paging_iterations 1 cmd cmd_clean timeout_per_cmd max_page pagination_start_time st ssh =
           Some (paging_loop cmd cmd_clean timeout_per_cmd max_page pagination_start_time st ssh) \<and>
         sublist timeout_warning (show_text st @ timeout_warning)"
proof -
  note b = after_deadline_body [OF assms, of cmd cmd_clean max_page st]
  have "paging_iterations (Suc 0) cmd cmd_clean timeout_per_cmd max_page pagination_start_time st ssh =
          Some (paging_loop cmd cmd_clean timeout_per_cmd max_page pagination_start_time st ssh)"
    by (simp add: b paging_loop_Break [OF b])
  then show ?thesis
    by (simp add: paging_loop_Break [OF b])
qed

theorem deadline_ends_paging_witness:
  "paging_loop (ascii ''display version'') (ascii ''display version'') 10 200 1
     \<lparr>show_text = ascii ''line 1 --More--'', prev_output = [], repeat_count = 0, page_count = 0\<rparr>
     late =
   (Inr (ascii ''line 1 --More--'' @ timeout_warning), late)"
proof -
  have "clock late - 1 > 10"
    by (simp add: late_def idle_def)
  from deadline_ends_paging [OF this, of "ascii ''display version''" "ascii ''display version''" 200
      "\<lparr>show_text = ascii ''line 1 --More--'', prev_output = [], repeat_count = 0, page_count = 0\<rparr>"]
  show ?thesis
    using first_page_facts(1,3) by (simp add: display_version_standard)
qed

text \<open>
  The claim as it is stated fails when another guard comes first. The pager answers four
  keystrokes at once with nothing and the fifth after eleven seconds, with a timeout of
  ten: the loop, started at second 1, ends at second 12, and the text it returns carries
  the deadlock warning and no timeout warning.
\<close>

theorem deadline_passed_without_timeout_warning:
  "clock (snd (send_command_timing (ascii ''display version'') 10 hung_pager)) = 1 \<and>
   clock (snd (handle_pagination hung_pager (ascii ''display version'') 10 200)) = 12 \<and>
   fst (handle_pagination hung_pager (ascii ''display version'') 10 200) =
     Inr (ascii ''line 1 --More--'' @ deadlock_warning) \<and>
   \<not> sublist timeout_warning (ascii ''line 1 --More--'' @ deadlock_warning)"
proof -
  let ?c = "ascii ''display version''"
  let ?show = "ascii ''line 1 --More--''"
  let ?rs = "replicate 4 (Reply (Inr []) 0 False) @ [Reply (Inr []) 11 False]"
  define ssh1 where "ssh1 = hung_pager\<lparr>script := ?rs, clock := clock hung_pager + 1,
    remote_conn := (if False then Has (Some (Channel (Has True))) else remote_conn hung_pager),
    events := events hung_pager @ [Sent ?c 10]\<rparr>"
  have scr: "script hung_pager = Reply (Inr ?show) 1 False # ?rs"
    by (simp add: hung_pager_def idle_def numeral_eq_Suc)
  have enter: "handle_pagination hung_pager ?c 10 200 =
      paging_loop ?c ?c 10 200 (clock hung_pager + 1)
        \<lparr>show_text = ?show, prev_output = [], repeat_count = 0, page_count = 0\<rparr> ssh1"
    unfolding ssh1_def
    by (rule standard_command_enters_loop
          [OF clean_display_version display_version_standard(1,2,3) scr first_page_facts(1)])
  have 1: "length ?rs = current_max_repeat ?c"
    by (simp add: display_version_standard)
  have 2: "script ssh1 = ?rs @ []"
    by (simp add: ssh1_def)
  have 3: "map r_result ?rs = map Inr (replicate 5 [])"
    by (simp add: numeral_eq_Suc)
  have 4: "find_marker ?show \<noteq> None"
    by (simp add: first_page_facts)
  have 5: "\<forall>j<length ?rs. clock ssh1 + sum_list (map r_took (take j ?rs))
              - (clock hung_pager + 1) \<le> 10"
    by (auto simp: ssh1_def numeral_eq_Suc less_Suc_eq)
  have 6: "0 + length ?rs \<le> (200::nat)"
    by simp
  from repeated_pages_run
         [OF 1 2 3 first_page_facts(3,1) 4 empty_pages_unchanged 5 6, of ?c 0]
  obtain ssh' where
    "paging_loop ?c ?c 10 200 (clock hung_pager + 1)
       \<lparr>show_text = ?show, prev_output = [], repeat_count = 0, page_count = 0\<rparr> ssh1 =
     (Inr (?show @ concat (replicate 5 []) @ deadlock_warning), ssh')"
    "clock ssh' = clock ssh1 + sum_list (map r_took ?rs)"
    by blast
  moreover have "clock ssh1 = 1"
    by (simp add: ssh1_def hung_pager_def idle_def)
  moreover have "sum_list (map r_took ?rs) = 11"
    by (simp add: sum_list_replicate)
  ultimately have "fst (handle_pagination hung_pager ?c 10 200) = Inr (?show @ deadlock_warning)"
    and "clock (snd (handle_pagination hung_pager ?c 10 200)) = 12"
    by (simp_all add: enter)
  moreover have "clock (snd (send_command_timing ?c 10 hung_pager)) = 1"
    by (simp add: send_command_timing_def hung_pager_def idle_def)
  moreover have "\<not> sublist timeout_warning (?show @ deadlock_warning)"
    by (simp add: timeout_warning_def deadlock_warning_def ascii_def eval_sublist)
  ultimately show ?thesis by blast
qed

subsection \<open>Alternative spellings of the disable-paging command\<close>

lemma writes_send:
  "writes (snd (send_command_timing text rt ssh)) = writes ssh @ [(text, rt)]"
  by (simp add: send_command_timing_def writes_def Let_def)

lemma try_alternatives_success:
  assumes "script ssh = bad @ Reply (Inr good) d c # rest"
    and "list_all error_reply bad" and "\<not> has_error good"
    and "length bad < length (filter (\<lambda>a. a \<noteq> cc) alts)"
  shows "\<exists>ssh'. try_alternatives cmd cc t alts ssh =
                  (Some (Inr (alt_succeeded_msg cmd (filter (\<lambda>a. a \<noteq> cc) alts ! length bad)
                                (py_strip good))), ssh') \<and>
                script ssh' = rest \<and>
                writes ssh' =
                  writes ssh @ map (\<lambda>a. (a, t)) (take (Suc (length bad)) (filter (\<lambda>a. a \<noteq> cc) alts))"
  using assms
proof (induction alts arbitrary: ssh bad)
  case Nil
  then show ?case by simp
next
  case (Cons a alts)
  show ?case
  proof (cases "a = cc")
    case True
    with Cons.prems have "length bad < length (filter (\<lambda>a. a \<noteq> cc) alts)"
      by simp
    from Cons.IH [OF Cons.prems(1,2,3) this] True show ?thesis
      by simp
  next
    case False
    show ?thesis
    proof (cases bad)
      case Nil
      with Cons.prems(1) have scr: "script ssh = Reply (Inr good) d c # rest"
        by simp
      from writes_send [of a t ssh] False Nil Cons.prems(3) show ?thesis
        by (simp add: send_scripted [OF scr])
    next
      case (Cons b bad')
      with Cons.prems(2) obtain s where b: "r_result b = Inr s" and err: "has_error s"
        by (auto simp: error_reply_def split: sum.splits)
      from b have "b = Reply (Inr s) (r_took b) (r_closes b)"
        by (cases b) simp
      with Cons Cons.prems(1)
      have scr: "script ssh = Reply (Inr s) (r_took b) (r_closes b) # bad' @ Reply (Inr good) d c # rest"
        by simp
      define ssh1 where "ssh1 = snd (send_command_timing a t ssh)"
      have send: "send_command_timing a t ssh = (Inr s, ssh1)"
        and scr1: "script ssh1 = bad' @ Reply (Inr good) d c # rest"
        by (simp_all add: ssh1_def send_scripted [OF scr])
      have w1: "writes ssh1 = writes ssh @ [(a, t)]"
        unfolding ssh1_def by (rule writes_send)
      from Cons Cons.prems(2) have bad': "list_all error_reply bad'"
        by simp
      from Cons Cons.prems(4) False have len: "length bad' < length (filter (\<lambda>a. a \<noteq> cc) alts)"
        by simp
      from Cons.IH [OF scr1 bad' Cons.prems(3) len] obtain ssh' where
        "try_alternatives cmd cc t alts ssh1 =
           (Some (Inr (alt_succeeded_msg cmd (filter (\<lambda>a. a \<noteq> cc) alts ! length bad')
                         (py_strip good))), ssh')"
        "script ssh' = rest"
        "writes ssh' =
           writes ssh1 @ map (\<lambda>a. (a, t)) (take (Suc (length bad')) (filter (\<lambda>a. a \<noteq> cc) alts))"
        by blast
      with False err Cons show ?thesis
        by (simp add: send w1)
    qed
  qed
qed

lemma try_alternatives_all_fail:
  assumes "script ssh = bad @ rest" and "list_all error_reply bad"
    and "length bad = length (filter (\<lambda>a. a \<noteq> cc) alts)"
  shows "\<exists>ssh'. try_alternatives cmd cc t alts ssh = (None, ssh') \<and> script ssh' = rest \<and>
                writes ssh' = writes ssh @ map (\<lambda>a. (a, t)) (filter (\<lambda>a. a \<noteq> cc) alts)"
  using assms
proof (induction alts arbitrary: ssh bad)
  case Nil
  then show ?case by simp
next
  case (Cons a alts)
  show ?case
  proof (cases "a = cc")
    case True
    with Cons.prems have "length bad = length (filter (\<lambda>a. a \<noteq> cc) alts)"
      by simp
    from Cons.IH [OF Cons.prems(1,2) this] True show ?thesis
      by simp
  next
    case False
    with Cons.prems(3) obtain b bad' where bad: "bad = b # bad'"
      by (cases bad) auto
    with Cons.prems(2) obtain s where b: "r_result b = Inr s" and err: "has_error s"
      by (auto simp: error_reply_def split: sum.splits)
    from b have "b = Reply (Inr s) (r_took b) (r_closes b)"
      by (cases b) simp
    with bad Cons.prems(1)
    have scr: "script ssh = Reply (Inr s) (r_took b) (r_closes b) # bad' @ rest"
      by simp
    define ssh1 where "ssh1 = snd (send_command_timing a t ssh)"
    have send: "send_command_timing a t ssh = (Inr s, ssh1)"
      and scr1: "script ssh1 = bad' @ rest"
      by (simp_all add: ssh1_def send_scripted [OF scr])
    have w1: "writes ssh1 = writes ssh @ [(a, t)]"
      unfolding ssh1_def by (rule writes_send)
    from bad Cons.prems(2) have bad': "list_all error_reply bad'"
      by simp
    from bad Cons.prems(3) False have len: "length bad' = length (filter (\<lambda>a. a \<noteq> cc) alts)"
      by simp
    from Cons.IH [OF scr1 bad' len] obtain ssh' where
      "try_alternatives cmd cc t alts ssh1 = (None, ssh')" "script ssh' = rest"
      "writes ssh' = writes ssh1 @ map (\<lambda>a. (a, t)) (filter (\<lambda>a. a \<noteq> cc) alts)"
      by blast
    with False err show ?thesis
      by (simp add: send w1)
  qed
qed

text \<open>
  C5. Let the command be a no-output command with \<^verbatim>\<open>screen-length\<close> in it whose first
  reply matches an error pattern, and let \<open>alts\<close> be the list of alternative spellings in
  its fixed order, without the spelling of the command itself. If the replies to the
  first alternatives are errors and the next reply is not, then what is written after
  the command is exactly that initial part of \<open>alts\<close>, each spelling once and in order,
  up to and including the first alternative that succeeds, and the text returned names
  that alternative and its reply. If the replies to all of \<open>alts\<close> are errors, each is
  written once, in order, and the failure of the command is reported. The list has no
  spelling twice.
\<close>

theorem alternatives_tried_in_order:
  assumes "strip_or_empty cmd \<in> set NO_OUTPUT_CMDS"
    and "sublist (ascii ''screen-length'') (strip_or_empty cmd)"
    and "script ssh = Reply (Inr show) d0 c0 # bad @ rest"
    and "has_error show" and "list_all error_reply bad"
    and "alts = filter (\<lambda>a. a \<noteq> strip_or_empty cmd) alternative_cmds"
  shows "(\<forall>good d c rest'.
            rest = Reply (Inr good) d c # rest' \<and> \<not> has_error good \<and> length bad < length alts \<longrightarrow>
            (\<exists>ssh'. handle_pagination ssh cmd timeout_per_cmd max_page =
                      (Inr (alt_succeeded_msg cmd (alts ! length bad) (py_strip good)), ssh') \<and>
                    writes ssh' =
                      writes ssh @ (cmd, timeout_per_cmd) #
                        map (\<lambda>a. (a, timeout_per_cmd)) (take (Suc (length bad)) alts) \<and>
                    script ssh' = rest')) \<and>
         (length bad = length alts \<longrightarrow>
            (\<exists>ssh'. handle_pagination ssh cmd timeout_per_cmd max_page =
                      (Inr (failed_msg cmd (py_strip show)), ssh') \<and>
                    writes ssh' =
                      writes ssh @ (cmd, timeout_per_cmd) # map (\<lambda>a. (a, timeout_per_cmd)) alts \<and>
                    script ssh' = rest)) \<and>
         distinct alts \<and>
         alternative_cmds =
           [ascii ''screen-length 0'', ascii ''screen-length 0 temporary'',
            ascii ''undo screen-length'', ascii ''screen-length enable'']"
proof -
  let ?cc = "strip_or_empty cmd"
  let ?t = timeout_per_cmd
  define ssh1 where "ssh1 = snd (send_command_timing cmd ?t ssh)"
  have send: "send_command_timing cmd ?t ssh = (Inr show, ssh1)"
    and scr1: "script ssh1 = bad @ rest"
    by (simp_all add: ssh1_def send_scripted [OF assms(3)])
  have w1: "writes ssh1 = writes ssh @ [(cmd, ?t)]"
    unfolding ssh1_def by (rule writes_send)
  from assms(1) have ne: "?cc \<noteq> []"
    by (auto simp: NO_OUTPUT_CMDS_def ascii_def)
  have hp: "handle_pagination ssh cmd ?t max_page =
              (case try_alternatives cmd ?cc ?t alternative_cmds ssh1 of
                 (Some returned, ssh2) \<Rightarrow> (returned, ssh2)
               | (None, ssh2) \<Rightarrow> (Inr (failed_msg cmd (py_strip show)), ssh2))"
    using assms(1,2,4) ne
    by (simp add: handle_pagination_def no_output_command_def send
             split: prod.split option.split)
  have 1: "\<exists>ssh'. handle_pagination ssh cmd ?t max_page =
                  (Inr (alt_succeeded_msg cmd (alts ! length bad) (py_strip good)), ssh') \<and>
                writes ssh' = writes ssh @ (cmd, ?t) # map (\<lambda>a. (a, ?t)) (take (Suc (length bad)) alts) \<and>
                script ssh' = rest'"
    if "rest = Reply (Inr good) d c # rest'" "\<not> has_error good" "length bad < length alts"
    for good d c rest'
  proof -
    from scr1 that(1) have "script ssh1 = bad @ Reply (Inr good) d c # rest'"
      by simp
    from try_alternatives_success [OF this assms(5) that(2), of ?cc alternative_cmds cmd ?t]
      that(3) assms(6)
    show ?thesis
      by (auto simp: hp w1)
  qed
  have 2: "\<exists>ssh'. handle_pagination ssh cmd ?t max_page = (Inr (failed_msg cmd (py_strip show)), ssh') \<and>
                writes ssh' = writes ssh @ (cmd, ?t) # map (\<lambda>a. (a, ?t)) alts \<and>
                script ssh' = rest"
    if "length bad = length alts"
    using try_alternatives_all_fail [OF scr1 assms(5), of ?cc alternative_cmds cmd ?t] that assms(6)
    by (auto simp: hp w1)
  have 3: "distinct alts"
    unfolding assms(6) by (rule distinct_filter) (simp add: alternative_cmds_def ascii_def)
  from 1 2 3 show ?thesis
    by (simp add: alternative_cmds_def)
qed

lemma clean_screen_length_disable:
  "strip_or_empty (ascii ''screen-length disable'') = ascii ''screen-length disable''"
  by (simp add: strip_or_empty_def ascii_def py_strip_def py_isspace_def)

theorem alternatives_tried_in_order_witness:
  "fst (handle_pagination other_dialect (ascii ''screen-length disable'') 10 200) =
     Inr (alt_succeeded_msg (ascii ''screen-length disable'') (ascii ''screen-length 0 temporary'') []) \<and>
   writes (snd (handle_pagination other_dialect (ascii ''screen-length disable'') 10 200)) =
     [(ascii ''screen-length disable'', 10), (ascii ''screen-length 0'', 10),
      (ascii ''screen-length 0 temporary'', 10)]"
proof -
  let ?cmd = "ascii ''screen-length disable''"
  let ?bad = "[Reply (Inr (ascii ''Invalid command'')) 1 False]"
  have 1: "strip_or_empty ?cmd \<in> set NO_OUTPUT_CMDS"
    by (simp add: clean_screen_length_disable NO_OUTPUT_CMDS_def)
  have 2: "sublist (ascii ''screen-length'') (strip_or_empty ?cmd)"
    unfolding clean_screen_length_disable by (simp add: ascii_def eval_sublist)
  have 3: "script other_dialect =
             Reply (Inr (ascii ''% Unrecognized command'')) 1 False # ?bad @ [Reply (Inr []) 1 False]"
    by (simp add: other_dialect_def idle_def)
  have 4: "has_error (ascii ''% Unrecognized command'')"
    by (simp add: has_error_def error_patterns_def ascii_def eval_sublist)
  have 5: "list_all error_reply ?bad"
    by (simp add: error_reply_def has_error_def error_patterns_def ascii_def eval_sublist)
  have 6: "alternative_cmds = filter (\<lambda>a. a \<noteq> strip_or_empty ?cmd) alternative_cmds"
    unfolding clean_screen_length_disable by (simp add: alternative_cmds_def ascii_def)
  have 7: "\<not> has_error []"
    by (simp add: has_error_def error_patterns_def ascii_def)
  have 8: "length ?bad < length alternative_cmds"
    by (simp add: alternative_cmds_def)
  have 9: "alternative_cmds ! length ?bad = ascii ''screen-length 0 temporary''"
    "take (Suc (length ?bad)) alternative_cmds =
       [ascii ''screen-length 0'', ascii ''screen-length 0 temporary'']"
    by (simp_all add: alternative_cmds_def)
  have 10: "writes other_dialect = []" "py_strip [] = []"
    by (simp_all add: writes_def other_dialect_def idle_def py_strip_def)
  from alternatives_tried_in_order [OF 1 2 3 4 5 6, of 10 200]
  have "\<forall>good d c rest'.
          [Reply (Inr []) 1 False] = Reply (Inr good) d c # rest' \<and> \<not> has_error good \<and>
          length ?bad < length alternative_cmds \<longrightarrow>
          (\<exists>ssh'. handle_pagination other_dialect ?cmd 10 200 =
                    (Inr (alt_succeeded_msg ?cmd (alternative_cmds ! length ?bad) (py_strip good)),
                     ssh') \<and>
                  writes ssh' =
                    writes other_dialect @ (?cmd, 10) #
                      map (\<lambda>a. (a, 10)) (take (Suc (length ?bad)) alternative_cmds) \<and>
                  script ssh' = rest')"
    by (rule conjunct1)
  then have "[Reply (Inr []) 1 False] = Reply (Inr []) 1 False # [] \<and> \<not> has_error [] \<and>
          length ?bad < length alternative_cmds \<longrightarrow>
          (\<exists>ssh'. handle_pagination other_dialect ?cmd 10 200 =
                    (Inr (alt_succeeded_msg ?cmd (alternative_cmds ! length ?bad) (py_strip [])),
                     ssh') \<and>
                  writes ssh' =
                    writes other_dialect @ (?cmd, 10) #
                      map (\<lambda>a. (a, 10)) (take (Suc (length ?bad)) alternative_cmds) \<and>
                  script ssh' = [])"
    by blast
  with 7 8 obtain ssh' where
    "handle_pagination other_dialect ?cmd 10 200 =
       (Inr (alt_succeeded_msg ?cmd (alternative_cmds ! length ?bad) (py_strip [])), ssh')"
    "writes ssh' = writes other_dialect @ (?cmd, 10) #
       map (\<lambda>a. (a, 10)) (take (Suc (length ?bad)) alternative_cmds)"
    by blast
  then show ?thesis
    unfolding 9 10 by simp
qed

subsection \<open>The read timeout of every write\<close>

lemma writes_log: "writes (log_message lv l ssh) = writes ssh"
  by (simp add: log_message_def writes_def)

lemma send_writes:
  "send_command_timing x rt ssh = (r, ssh') \<Longrightarrow> writes ssh' = writes ssh @ [(x, rt)]"
  using writes_send [of x rt ssh] by simp

lemma turn_page_writes:
  assumes "turn_page cmd p t ssh = (r, ssh')"
  shows "\<exists>ws. writes ssh' = writes ssh @ ws \<and> list_all (\<lambda>w. snd w = t) ws"
proof (cases "p \<in> set space_markers \<or> p = ascii ''<Press ENTER to continue>''")
  case True
  with assms obtain key l where "send_command_timing key t (log_message Info l ssh) = (r, ssh')"
    by (auto simp: turn_page_def split: if_splits)
  from send_writes [OF this] show ?thesis
    by (simp add: writes_log)
next
  case False
  with assms show ?thesis
    by (simp add: turn_page_def)
qed

lemma paging_body_writes:
  "paging_body cmd cc t mp start st ssh = Continue st' ssh' \<Longrightarrow>
     \<exists>ws. writes ssh' = writes ssh @ ws \<and> list_all (\<lambda>w. snd w = t) ws"
  "paging_body cmd cc t mp start st ssh = Break r ssh' \<Longrightarrow>
     \<exists>ws. writes ssh' = writes ssh @ ws \<and> list_all (\<lambda>w. snd w = t) ws"
  by (auto simp: paging_body_def Let_def
           split: if_splits option.splits prod.splits sum.splits
           dest!: turn_page_writes)

lemma paging_loop_writes:
  "\<exists>ws. writes (snd (paging_loop cmd cc t mp start st ssh)) = writes ssh @ ws \<and>
        list_all (\<lambda>w. snd w = t) ws"
proof (induction cmd cc t mp start st ssh rule: paging_loop.induct)
  case (1 cmd cc t mp start st ssh)
  show ?case
  proof (cases "paging_body cmd cc t mp start st ssh")
    case (Continue st' ssh')
    from paging_body_writes(1) [OF Continue] obtain ws1
      where 1: "writes ssh' = writes ssh @ ws1" "list_all (\<lambda>w. snd w = t) ws1"
      by blast
    from "1.IH" [OF Continue] obtain ws2
      where 2: "writes (snd (paging_loop cmd cc t mp start st' ssh')) = writes ssh' @ ws2"
        "list_all (\<lambda>w. snd w = t) ws2"
      by blast
    from 1 2 have "writes (snd (paging_loop cmd cc t mp start st' ssh')) = writes ssh @ (ws1 @ ws2)"
      and "list_all (\<lambda>w. snd w = t) (ws1 @ ws2)"
      by simp_all
    then show ?thesis
      unfolding paging_loop_Continue [OF Continue] by blast
  next
    case (Break r ssh')
    from paging_body_writes(2) [OF Break] show ?thesis
      by (simp add: paging_loop_Break [OF Break])
  qed
qed

lemma try_alternatives_writes:
  "\<exists>ws. writes (snd (try_alternatives cmd cc t alts ssh)) = writes ssh @ ws \<and>
        list_all (\<lambda>w. snd w = t) ws"
proof (induction alts arbitrary: ssh)
  case Nil
  then show ?case by simp
next
  case (Cons a alts)
  show ?case
  proof (cases "a = cc")
    case True
    with Cons show ?thesis by simp
  next
    case False
    obtain r ssh1 where send: "send_command_timing a t ssh = (r, ssh1)"
      by (cases "send_command_timing a t ssh")
    note w1 = send_writes [OF send]
    from Cons [of ssh1] obtain ws
      where ih: "writes (snd (try_alternatives cmd cc t alts ssh1)) = writes ssh1 @ ws"
        "list_all (\<lambda>w. snd w = t) ws"
      by blast
    show ?thesis
    proof (cases r)
      case (Inl e)
      with False send w1 show ?thesis by simp
    next
      case (Inr alt_show)
      show ?thesis
      proof (cases "has_error alt_show")
        case True
        with ih w1 have "\<exists>ws'. writes (snd (try_alternatives cmd cc t alts ssh1)) =
                              writes ssh @ ws' \<and> list_all (\<lambda>w. snd w = t) ws'"
          by (intro exI [of _ "(a, t) # ws"]) simp
        with False send Inr True show ?thesis
          by simp
      next
        case no_error: False
        with False send Inr w1 show ?thesis by simp
      qed
    qed
  qed
qed

lemma no_output_command_writes:
  "\<exists>ws. writes (snd (no_output_command ssh cmd cc t)) = writes ssh @ (cmd, t) # ws \<and>
        list_all (\<lambda>w. snd w = t) ws"
proof -
  obtain r ssh1 where send: "send_command_timing cmd t ssh = (r, ssh1)"
    by (cases "send_command_timing cmd t ssh")
  note w1 = send_writes [OF send]
  show ?thesis
  proof (cases r)
    case (Inl e)
    with send w1 show ?thesis
      by (simp add: no_output_command_def)
  next
    case (Inr out)
    show ?thesis
    proof (cases "sublist (ascii ''screen-length'') cc \<and> has_error out")
      case True
      from try_alternatives_writes [of cmd cc t alternative_cmds ssh1] obtain ws
        where "writes (snd (try_alternatives cmd cc t alternative_cmds ssh1)) = writes ssh1 @ ws"
          "list_all (\<lambda>w. snd w = t) ws"
        by blast
      with True send Inr w1 show ?thesis
        by (cases "try_alternatives cmd cc t alternative_cmds ssh1")
           (auto simp: no_output_command_def split: option.splits)
    next
      case False
      with send Inr w1 show ?thesis
        by (auto simp: no_output_command_def)
    qed
  qed
qed

lemma standard_paging_writes:
  "\<exists>ws. writes (snd (standard_paging ssh cmd cc t mp)) = writes ssh @ (cmd, t) # ws \<and>
        list_all (\<lambda>w. snd w = t) ws"
proof -
  obtain r ssh1 where send: "send_command_timing cmd t ssh = (r, ssh1)"
    by (cases "send_command_timing cmd t ssh")
  note w1 = send_writes [OF send]
  show ?thesis
  proof (cases r)
    case (Inl e)
    with send w1 show ?thesis
      by (simp add: standard_paging_def)
  next
    case (Inr out)
    show ?thesis
    proof (cases "unrecognized out")
      case True
      with send Inr w1 show ?thesis
        by (simp add: standard_paging_def)
    next
      case False
      from paging_loop_writes [of cmd cc t mp "clock ssh1"
             "\<lparr>show_text = out, prev_output = [], repeat_count = 0, page_count = 0\<rparr>" ssh1]
      obtain ws where
        "writes (snd (paging_loop cmd cc t mp (clock ssh1)
           \<lparr>show_text = out, prev_output = [], repeat_count = 0, page_count = 0\<rparr> ssh1)) =
         writes ssh1 @ ws" "list_all (\<lambda>w. snd w = t) ws"
        by blast
      with False send Inr w1 show ?thesis
        by (simp add: standard_paging_def)
    qed
  qed
qed

text \<open>The timeout that \<^verbatim>\<open>handle_pagination\<close> works with.\<close>

lemma handle_pagination_writes:
  assumes "strip_or_empty cmd \<noteq> []"
  shows "\<exists>ws. writes (snd (handle_pagination ssh cmd t mp)) =
               writes ssh @ (cmd, snd (big_output_limits (strip_or_empty cmd) mp t)) # ws \<and>
             list_all (\<lambda>w. snd w = snd (big_output_limits (strip_or_empty cmd) mp t)) ws"
proof (cases "strip_or_empty cmd \<in> set NO_OUTPUT_CMDS")
  case True
  with big_not_no_output [of "strip_or_empty cmd"]
  have "snd (big_output_limits (strip_or_empty cmd) mp t) = t"
    by (auto simp: big_output_limits_def)
  with True assms no_output_command_writes [of ssh cmd "strip_or_empty cmd" t] show ?thesis
    by (simp add: handle_pagination_def)
next
  case False
  obtain mp' t' where lim: "big_output_limits (strip_or_empty cmd) mp t = (mp', t')"
    by (cases "big_output_limits (strip_or_empty cmd) mp t")
  with False assms standard_paging_writes [of ssh cmd "strip_or_empty cmd" t' mp'] show ?thesis
    by (simp add: handle_pagination_def)
qed

subsection \<open>The limits of a large-output command\<close>

text \<open>
  C7. For a command of the large-output set, \<^verbatim>\<open>handle_pagination\<close> runs the standard
  paging with the page ceiling raised to at least \<^verbatim>\<open>BIG_OUTPUT_MAX_PAGE\<close>, three times
  the default ceiling, that is 600 (from the default ceiling: exactly 600), and with
  three times the given timeout, capped at \<^verbatim>\<open>LONG_TIMEOUT\<close>, the larger of three times
  the default command timeout and 240 seconds, that is 240. The limits are enlarged
  before the loop is entered: the command itself and every keystroke after it are
  written with the enlarged timeout.
\<close>

theorem big_output_enlarges_limits:
  assumes "strip_or_empty cmd \<in> set BIG_OUTPUT_CMDS"
  shows "handle_pagination ssh cmd timeout_per_cmd max_page =
           standard_paging ssh cmd (strip_or_empty cmd)
             (min (timeout_per_cmd * 3) LONG_TIMEOUT) (max max_page BIG_OUTPUT_MAX_PAGE) \<and>
         (\<exists>ws. writes (snd (handle_pagination ssh cmd timeout_per_cmd max_page)) =
                 writes ssh @ (cmd, min (timeout_per_cmd * 3) LONG_TIMEOUT) # ws \<and>
               list_all (\<lambda>w. snd w = min (timeout_per_cmd * 3) LONG_TIMEOUT) ws) \<and>
         LONG_TIMEOUT = max (3 * INSPECTION_CMD_TIMEOUT) 240 \<and> LONG_TIMEOUT = 240 \<and>
         BIG_OUTPUT_MAX_PAGE = 3 * DEFAULT_MAX_PAGE \<and> BIG_OUTPUT_MAX_PAGE = 600 \<and>
         max DEFAULT_MAX_PAGE BIG_OUTPUT_MAX_PAGE = 600"
proof -
  from big_not_no_output [OF assms] have ne: "strip_or_empty cmd \<noteq> []"
    and no: "strip_or_empty cmd \<notin> set NO_OUTPUT_CMDS"
    by simp_all
  have eff: "snd (big_output_limits (strip_or_empty cmd) max_page timeout_per_cmd) =
               min (timeout_per_cmd * 3) LONG_TIMEOUT"
    using assms by (simp add: big_output_limits_def)
  have "handle_pagination ssh cmd timeout_per_cmd max_page =
          standard_paging ssh cmd (strip_or_empty cmd)
            (min (timeout_per_cmd * 3) LONG_TIMEOUT) (max max_page BIG_OUTPUT_MAX_PAGE)"
    using ne no assms by (simp add: handle_pagination_def big_output_limits_def)
  moreover note handle_pagination_writes [OF ne, of ssh timeout_per_cmd max_page, unfolded eff]
  moreover have "LONG_TIMEOUT = max (3 * INSPECTION_CMD_TIMEOUT) 240" "LONG_TIMEOUT = 240"
    "BIG_OUTPUT_MAX_PAGE = 3 * DEFAULT_MAX_PAGE" "BIG_OUTPUT_MAX_PAGE = 600"
    "max DEFAULT_MAX_PAGE BIG_OUTPUT_MAX_PAGE = 600"
    by (simp_all add: LONG_TIMEOUT_def INSPECTION_CMD_TIMEOUT_def BIG_OUTPUT_MAX_PAGE_def
                      DEFAULT_MAX_PAGE_def)
  ultimately show ?thesis by blast
qed

theorem big_output_enlarges_limits_witness:
  "strip_or_empty (ascii ''display interface'') \<in> set BIG_OUTPUT_CMDS \<and>
   handle_pagination idle (ascii ''display interface'') 10 DEFAULT_MAX_PAGE =
     standard_paging idle (ascii ''display interface'') (ascii ''display interface'') 30 600"
proof -
  have h: "strip_or_empty (ascii ''display interface'') \<in> set BIG_OUTPUT_CMDS"
    by (simp add: clean_display_interface BIG_OUTPUT_CMDS_def)
  from big_output_enlarges_limits [OF h, of idle 10 DEFAULT_MAX_PAGE]
  have "handle_pagination idle (ascii ''display interface'') 10 DEFAULT_MAX_PAGE =
          standard_paging idle (ascii ''display interface'') (ascii ''display interface'')
            (min (10 * 3) 240) 600"
    by (simp add: clean_display_interface)
  with h show ?thesis by simp
qed

subsection \<open>The command loop of the inspection task\<close>

lemma run_command_total: "\<exists>out ssh'. run_command ssh cmd t = (Inr out, ssh')"
proof -
  obtain r ssh1 where hp: "handle_pagination ssh cmd t DEFAULT_MAX_PAGE = (r, ssh1)"
    by (cases "handle_pagination ssh cmd t DEFAULT_MAX_PAGE")
  show ?thesis
  proof (cases r)
    case (Inl e)
    obtain r2 ssh2
      where "send_command_timing cmd t (log_message Error (PaginationFailed e) ssh1) = (r2, ssh2)"
      by (cases "send_command_timing cmd t (log_message Error (PaginationFailed e) ssh1)")
    with hp Inl show ?thesis
      by (cases r2) (simp_all add: run_command_def)
  next
    case (Inr out)
    with hp show ?thesis
      by (simp add: run_command_def)
  qed
qed

lemma events_log: "events (log_message lv l ssh) = events ssh @ [Log lv l]"
  by (simp add: log_message_def)

lemma run_command_failed:
  assumes "handle_pagination ssh cmd t DEFAULT_MAX_PAGE = (Inl e, ssh1)"
  shows "\<exists>out ssh2. run_command ssh cmd t = (Inr out, ssh2) \<and>
           Log Error (PaginationFailed e) \<in> set (events ssh2) \<and>
           writes ssh2 = writes ssh1 @ [(cmd, t)] \<and>
           (\<forall>e2. fst (send_command_timing cmd t (log_message Error (PaginationFailed e) ssh1)) =
                   Inl e2 \<longrightarrow>
                 out = [] \<and> Log Error (BaseOutputFailed e2) \<in> set (events ssh2))"
proof -
  let ?logged = "log_message Error (PaginationFailed e) ssh1"
  obtain r2 ssh2 where send: "send_command_timing cmd t ?logged = (r2, ssh2)"
    by (cases "send_command_timing cmd t ?logged")
  from send_writes [OF send] have w: "writes ssh2 = writes ssh1 @ [(cmd, t)]"
    by (simp add: writes_log)
  from send have ev: "Log Error (PaginationFailed e) \<in> set (events ssh2)"
    by (auto simp: send_command_timing_def log_message_def Let_def)
  from assms send w ev show ?thesis
    by (cases r2) (auto simp: run_command_def writes_log events_log)
qed

lemma run_command_writes:
  assumes "strip_or_empty cmd \<noteq> []"
  shows "\<exists>ws. writes (snd (run_command ssh cmd t)) =
               writes ssh @ (cmd, snd (big_output_limits (strip_or_empty cmd) DEFAULT_MAX_PAGE t)) # ws \<and>
             list_all (\<lambda>w. snd w = snd (big_output_limits (strip_or_empty cmd) DEFAULT_MAX_PAGE t) \<or>
                          snd w = t) ws"
proof -
  let ?eff = "snd (big_output_limits (strip_or_empty cmd) DEFAULT_MAX_PAGE t)"
  obtain r ssh1 where hp: "handle_pagination ssh cmd t DEFAULT_MAX_PAGE = (r, ssh1)"
    by (cases "handle_pagination ssh cmd t DEFAULT_MAX_PAGE")
  from handle_pagination_writes [OF assms, of ssh t DEFAULT_MAX_PAGE] hp obtain ws
    where ws: "writes ssh1 = writes ssh @ (cmd, ?eff) # ws" "list_all (\<lambda>w. snd w = ?eff) ws"
    by auto
  then have weak: "list_all (\<lambda>w. snd w = ?eff \<or> snd w = t) ws"
    by (simp add: list_all_iff)
  show ?thesis
  proof (cases r)
    case (Inl e)
    from run_command_failed [OF hp [unfolded Inl]] obtain out ssh2
      where "run_command ssh cmd t = (Inr out, ssh2)" "writes ssh2 = writes ssh1 @ [(cmd, t)]"
      by blast
    with ws weak have "writes (snd (run_command ssh cmd t)) = writes ssh @ (cmd, ?eff) # (ws @ [(cmd, t)])"
      and "list_all (\<lambda>w. snd w = ?eff \<or> snd w = t) (ws @ [(cmd, t)])"
      by simp_all
    then show ?thesis by blast
  next
    case (Inr out)
    with hp ws weak show ?thesis
      by (simp add: run_command_def)
  qed
qed

lemma inspection_step:
  assumes "strip_or_empty cmd \<noteq> []"
    and "0 < INSPECTION_TASK_TIMEOUT - (clock ssh - t0)" and "\<not> channel_closed ssh"
    and "run_command ssh cmd
           (min INSPECTION_CMD_TIMEOUT (INSPECTION_TASK_TIMEOUT - (clock ssh - t0))) = (Inr out, ssh2)"
  shows "inspection_commands flag con t0 ssh (cmd # cmds) =
           (if unrecognized out
            then inspection_commands flag con t0 (log_message Warning (CommandIncompatible cmd) ssh2) cmds
            else (case quit_and_echo flag con cmd out ssh2 of
                    Stop raised ssh3 \<Rightarrow> (raised, ssh3)
                  | Next ssh3 \<Rightarrow> inspection_commands flag con t0 ssh3 cmds))"
  using assms by (simp add: inspection_commands.simps(2) Let_def)

lemma quit_and_echo_Next:
  assumes "quit_and_echo flag con cmd out ssh = Next ssh'"
  shows "clock ssh' = clock ssh \<and> remote_conn ssh' = remote_conn ssh \<and>
         script ssh' = script ssh \<and> writes ssh' = writes ssh"
  using assms
  by (auto simp: quit_and_echo_def console_print_def log_message_def writes_def Let_def
           split: if_splits option.splits)

lemma quit_and_echo_Stop:
  assumes "quit_and_echo flag con cmd out ssh = Stop raised ssh'"
  shows "writes ssh' = writes ssh \<and>
         (raised = None \<and> py_lower (py_strip cmd) = ascii ''quit'' \<and> channel_closed ssh \<and>
            ssh' = log_message Info QuitClosedChannel ssh \<or>
          flag = ascii ''y'' \<and> raised \<noteq> None \<and> raised = con cmd out)"
proof (cases "con cmd out")
  case None
  with assms show ?thesis
    by (auto simp: quit_and_echo_def console_print_def log_message_def writes_def Let_def
             split: if_splits)
next
  case (Some e)
  with assms have "writes ssh' = writes ssh"
    by (auto simp: quit_and_echo_def console_print_def log_message_def writes_def Let_def
             split: if_splits)
  moreover from Some assms
  have "raised = None \<and> py_lower (py_strip cmd) = ascii ''quit'' \<and> channel_closed ssh \<and>
          ssh' = log_message Info QuitClosedChannel ssh \<or>
        flag = ascii ''y'' \<and> raised = Some e"
    by (auto simp: quit_and_echo_def console_print_def Let_def split: if_splits)
  ultimately show ?thesis
    using Some by auto
qed

lemma quit_and_echo_quiet:
  assumes "flag \<noteq> ascii ''y'' \<or> con cmd out = None"
    and "\<not> (py_lower (py_strip cmd) = ascii ''quit'' \<and> channel_closed ssh)"
  shows "\<exists>ssh'. quit_and_echo flag con cmd out ssh = Next ssh'"
  using assms
  by (auto simp: quit_and_echo_def console_print_def Let_def split: option.splits)



lemma inspection_commands_writes_prefix:
  "\<exists>ws. writes (snd (inspection_commands flag con t0 ssh cmds)) = writes ssh @ ws"
proof (induction cmds arbitrary: ssh)
  case Nil
  show ?case by simp
next
  case (Cons cmd cmds)
  let ?remaining = "INSPECTION_TASK_TIMEOUT - (clock ssh - t0)"
  consider "strip_or_empty cmd = []"
    | "strip_or_empty cmd \<noteq> []" "?remaining \<le> 0"
    | "strip_or_empty cmd \<noteq> []" "0 < ?remaining" "channel_closed ssh"
    | "strip_or_empty cmd \<noteq> []" "0 < ?remaining" "\<not> channel_closed ssh"
    by fastforce
  then show ?case
  proof cases
    case 1
    with Cons [of "log_message Debug SkipEmptyCommand ssh"] show ?thesis
      by (simp add: inspection_commands.simps(2) writes_log)
  next
    case 2
    then show ?thesis
      by (simp add: inspection_commands.simps(2) Let_def disconnect_def log_message_def writes_def)
  next
    case 3
    then show ?thesis
      by (simp add: inspection_commands.simps(2) Let_def writes_log)
  next
    case 4
    let ?t = "min INSPECTION_CMD_TIMEOUT ?remaining"
    from run_command_total obtain out ssh2
      where rc: "run_command ssh cmd ?t = (Inr out, ssh2)"
      by blast
    have "\<exists>ws. writes ssh2 = writes ssh @ ws"
    proof (cases "handle_pagination ssh cmd ?t DEFAULT_MAX_PAGE")
      case (Pair r ssh1)
      from run_command_writes [OF 4(1), of ssh ?t] rc show ?thesis
        by auto
    qed
    then obtain ws1 where ws1: "writes ssh2 = writes ssh @ ws1"
      by blast
    have "\<exists>ws. writes (snd (inspection_commands flag con t0 ssh (cmd # cmds))) = writes ssh2 @ ws"
    proof (cases "quit_and_echo flag con cmd out ssh2")
      case (Stop raised ssh3)
      from quit_and_echo_Stop [OF Stop] have "writes ssh3 = writes ssh2"
        by simp
      with Stop Cons [of "log_message Warning (CommandIncompatible cmd) ssh2"] show ?thesis
        unfolding inspection_step [OF 4 rc] by (simp add: writes_log)
    next
      case (Next ssh3)
      from quit_and_echo_Next [OF Next] have "writes ssh3 = writes ssh2"
        by simp
      with Next Cons [of ssh3] Cons [of "log_message Warning (CommandIncompatible cmd) ssh2"]
      show ?thesis
        unfolding inspection_step [OF 4 rc] by (simp add: writes_log)
    qed
    with ws1 show ?thesis
      by auto
  qed
qed

lemma after_command_writes:
  assumes "strip_or_empty cmd \<noteq> []"
    and "0 < INSPECTION_TASK_TIMEOUT - (clock ssh - t0)" and "\<not> channel_closed ssh"
  shows "\<exists>ws. writes (snd (inspection_commands flag con t0 ssh (cmd # cmds))) =
               writes (snd (run_command ssh cmd
                 (min INSPECTION_CMD_TIMEOUT (INSPECTION_TASK_TIMEOUT - (clock ssh - t0))))) @ ws"
proof -
  let ?t = "min INSPECTION_CMD_TIMEOUT (INSPECTION_TASK_TIMEOUT - (clock ssh - t0))"
  from run_command_total obtain out ssh2
    where rc: "run_command ssh cmd ?t = (Inr out, ssh2)"
    by blast
  have "\<exists>ws. writes (snd (inspection_commands flag con t0 ssh (cmd # cmds))) = writes ssh2 @ ws"
  proof (cases "quit_and_echo flag con cmd out ssh2")
    case (Stop raised ssh3)
    from quit_and_echo_Stop [OF Stop] have "writes ssh3 = writes ssh2"
      by simp
    with Stop
      inspection_commands_writes_prefix [of flag con t0 "log_message Warning (CommandIncompatible cmd) ssh2" cmds]
    show ?thesis
      unfolding inspection_step [OF assms rc] by (simp add: writes_log)
  next
    case (Next ssh3)
    from quit_and_echo_Next [OF Next] have "writes ssh3 = writes ssh2"
      by simp
    with Next inspection_commands_writes_prefix [of flag con t0 ssh3 cmds]
      inspection_commands_writes_prefix [of flag con t0 "log_message Warning (CommandIncompatible cmd) ssh2" cmds]
    show ?thesis
      unfolding inspection_step [OF assms rc] by (simp add: writes_log)
  qed
  with rc show ?thesis
    by simp
qed

lemma writes_disconnected: "writes (ssh\<lparr>events := events ssh @ [Disconnect]\<rparr>) = writes ssh"
  by (simp add: writes_def)

lemma writes_finally: "writes (inspection_finally ssh) = writes ssh"
  by (auto simp: inspection_finally_def disconnect_def writes_log writes_disconnected Let_def
           split: option.splits exn.splits)

lemma budget_exhausted:
  assumes "strip_or_empty cmd \<noteq> []" and "INSPECTION_TASK_TIMEOUT - (clock ssh - t0) \<le> 0"
  shows "inspection_commands flag con t0 ssh (cmd # cmds) =
           (None, ssh\<lparr>events := events ssh @ [Log Error TaskTimedOut, Disconnect]\<rparr>)"
  using assms
  by (simp add: inspection_commands.simps(2) Let_def disconnect_def log_message_def)

lemma command_writes:
  assumes "strip_or_empty cmd \<noteq> []"
    and "0 < INSPECTION_TASK_TIMEOUT - (clock ssh - t0)" and "\<not> channel_closed ssh"
    and "t = min INSPECTION_CMD_TIMEOUT (INSPECTION_TASK_TIMEOUT - (clock ssh - t0))"
    and "enlarged = (if strip_or_empty cmd \<in> set BIG_OUTPUT_CMDS
                     then min (t * 3) LONG_TIMEOUT else t)"
  shows "\<exists>ws ws'. writes (snd (run_command ssh cmd t)) = writes ssh @ (cmd, enlarged) # ws \<and>
           list_all (\<lambda>w. snd w = enlarged \<or> snd w = t) ws \<and>
           writes (snd (inspection_commands flag con t0 ssh (cmd # cmds))) =
             writes (snd (run_command ssh cmd t)) @ ws'"
proof -
  have "snd (big_output_limits (strip_or_empty cmd) DEFAULT_MAX_PAGE t) = enlarged"
    by (simp add: big_output_limits_def assms(5))
  with run_command_writes [OF assms(1), of ssh t] obtain ws
    where "writes (snd (run_command ssh cmd t)) = writes ssh @ (cmd, enlarged) # ws"
      "list_all (\<lambda>w. snd w = enlarged \<or> snd w = t) ws"
    by auto
  moreover from after_command_writes [OF assms(1,2,3), of flag con cmds] obtain ws'
    where "writes (snd (inspection_commands flag con t0 ssh (cmd # cmds))) =
             writes (snd (run_command ssh cmd t)) @ ws'"
    unfolding assms(4) by blast
  ultimately show ?thesis by blast
qed

text \<open>
  C2, as the code has it. Before a command the task computes what remains of its budget.
  If nothing remains, no further command is executed: the loop ends with the time-out
  line and a disconnect, and the task returns without having written anything more. If
  something remains and the channel is open, the timeout allotted to the command is the
  smaller of the default command timeout and the remainder, hence never more than the
  remainder; the command is written with it, unless it is of the large-output set: then
  the pagination engine writes it with three times that timeout, capped at
  \<^verbatim>\<open>LONG_TIMEOUT\<close>, which the remainder does not bound.
\<close>

theorem timeout_from_remaining_budget:
  assumes "strip_or_empty cmd \<noteq> []"
    and "remaining = INSPECTION_TASK_TIMEOUT - (clock ssh - inspection_start_time)"
    and "timeout_per_cmd = min INSPECTION_CMD_TIMEOUT remaining"
    and "enlarged = (if strip_or_empty cmd \<in> set BIG_OUTPUT_CMDS
                     then min (timeout_per_cmd * 3) LONG_TIMEOUT else timeout_per_cmd)"
  shows "(remaining \<le> 0 \<longrightarrow>
            inspection_commands enable_show_output console inspection_start_time ssh (cmd # cmds) =
              (None, ssh\<lparr>events := events ssh @ [Log Error TaskTimedOut, Disconnect]\<rparr>) \<and>
            fst (inspection enable_show_output console inspection_start_time ssh (Some (cmd # cmds))) = None \<and>
            writes (snd (inspection enable_show_output console inspection_start_time ssh (Some (cmd # cmds)))) = writes ssh) \<and>
         (0 < remaining \<and> \<not> channel_closed ssh \<longrightarrow>
            timeout_per_cmd \<le> remaining \<and>
            (\<exists>ws ws'.
               writes (snd (run_command ssh cmd timeout_per_cmd)) =
                 writes ssh @ (cmd, enlarged) # ws \<and>
               list_all (\<lambda>w. snd w = enlarged \<or> snd w = timeout_per_cmd) ws \<and>
               writes (snd (inspection_commands enable_show_output console inspection_start_time ssh (cmd # cmds))) =
                 writes (snd (run_command ssh cmd timeout_per_cmd)) @ ws'))"
proof (intro conjI impI)
  assume "remaining \<le> 0"
  with assms(2) have "INSPECTION_TASK_TIMEOUT - (clock ssh - inspection_start_time) \<le> 0"
    by simp
  note stop = budget_exhausted [OF assms(1) this, of enable_show_output console cmds]
  show "inspection_commands enable_show_output console inspection_start_time ssh (cmd # cmds) =
          (None, ssh\<lparr>events := events ssh @ [Log Error TaskTimedOut, Disconnect]\<rparr>)"
    by (rule stop)
  show "fst (inspection enable_show_output console inspection_start_time ssh (Some (cmd # cmds))) = None"
    by (simp add: inspection_def stop)
  show "writes (snd (inspection enable_show_output console inspection_start_time ssh (Some (cmd # cmds)))) = writes ssh"
    by (simp add: inspection_def stop writes_finally) (simp add: writes_def)
next
  assume "0 < remaining \<and> \<not> channel_closed ssh"
  then show "timeout_per_cmd \<le> remaining"
    by (simp add: assms(3))
next
  assume "0 < remaining \<and> \<not> channel_closed ssh"
  with assms(2) have "0 < INSPECTION_TASK_TIMEOUT - (clock ssh - inspection_start_time)"
    and "\<not> channel_closed ssh"
    by simp_all
  from command_writes [OF assms(1) this assms(3) [unfolded assms(2)] assms(4),
      of enable_show_output console cmds]
  show "\<exists>ws ws'.
          writes (snd (run_command ssh cmd timeout_per_cmd)) = writes ssh @ (cmd, enlarged) # ws \<and>
          list_all (\<lambda>w. snd w = enlarged \<or> snd w = timeout_per_cmd) ws \<and>
          writes (snd (inspection_commands enable_show_output console inspection_start_time ssh (cmd # cmds))) =
            writes (snd (run_command ssh cmd timeout_per_cmd)) @ ws'"
    .
qed

lemma idle_open: "\<not> channel_closed (idle\<lparr>clock := c\<rparr>)"
  by (simp add: channel_closed_def channel_closed_try_def idle_def)

theorem timeout_from_remaining_budget_witness:
  "inspection_commands (ascii ''n'') quiet 0 expired [ascii ''display version'', ascii ''display version''] =
     (None, expired\<lparr>events := events expired @ [Log Error TaskTimedOut, Disconnect]\<rparr>) \<and>
   (\<exists>ws. writes (snd (inspection_commands (ascii ''n'') quiet 0 almost_out [ascii ''display version''])) =
           (ascii ''display version'', 5) # ws)"
proof -
  let ?c = "ascii ''display version''"
  have ne: "strip_or_empty ?c \<noteq> []"
    unfolding clean_display_version by (rule display_version_standard(1))
  have r1: "0 = INSPECTION_TASK_TIMEOUT - (clock expired - 0)"
    by (simp add: INSPECTION_TASK_TIMEOUT_def expired_def)
  have r2: "5 = INSPECTION_TASK_TIMEOUT - (clock almost_out - 0)"
    by (simp add: INSPECTION_TASK_TIMEOUT_def almost_out_def)
  have t1: "(0::real) = min INSPECTION_CMD_TIMEOUT 0" and t2: "(5::real) = min INSPECTION_CMD_TIMEOUT 5"
    by (simp_all add: INSPECTION_CMD_TIMEOUT_def)
  have e1: "(0::real) = (if strip_or_empty ?c \<in> set BIG_OUTPUT_CMDS then min (0 * 3) LONG_TIMEOUT else 0)"
    and e2: "(5::real) = (if strip_or_empty ?c \<in> set BIG_OUTPUT_CMDS then min (5 * 3) LONG_TIMEOUT else 5)"
    unfolding clean_display_version by (simp_all add: display_version_standard)
  have "(0::real) \<le> 0" by simp
  with timeout_from_remaining_budget [OF ne r1 t1 e1, of "ascii ''n''" quiet "[?c]"]
  have 1: "inspection_commands (ascii ''n'') quiet 0 expired [?c, ?c] =
             (None, expired\<lparr>events := events expired @ [Log Error TaskTimedOut, Disconnect]\<rparr>)"
    by blast
  have "(0::real) < 5 \<and> \<not> channel_closed almost_out"
    unfolding almost_out_def by (simp add: idle_open)
  with timeout_from_remaining_budget [OF ne r2 t2 e2, of "ascii ''n''" quiet "[]"]
  obtain ws ws' where
    "writes (snd (run_command almost_out ?c 5)) = writes almost_out @ (?c, 5) # ws"
    "writes (snd (inspection_commands (ascii ''n'') quiet 0 almost_out [?c])) =
       writes (snd (run_command almost_out ?c 5)) @ ws'"
    by blast
  moreover have "writes almost_out = []"
    by (simp add: writes_def almost_out_def idle_def)
  ultimately have "writes (snd (inspection_commands (ascii ''n'') quiet 0 almost_out [?c])) = (?c, 5) # (ws @ ws')"
    by simp
  with 1 show ?thesis by blast
qed

text \<open>
  The claim as it is stated fails for a large-output command: with five seconds of the
  budget left, \<^verbatim>\<open>display interface\<close> is written with a read timeout of fifteen seconds.
\<close>

theorem enlarged_timeout_exceeds_budget:
  "INSPECTION_TASK_TIMEOUT - (clock almost_out - 0) = 5 \<and>
   (\<exists>ws. writes (snd (inspection_commands (ascii ''n'') quiet 0 almost_out [ascii ''display interface''])) =
           (ascii ''display interface'', 15) # ws)"
proof -
  let ?c = "ascii ''display interface''"
  have r: "INSPECTION_TASK_TIMEOUT - (clock almost_out - 0) = 5"
    by (simp add: INSPECTION_TASK_TIMEOUT_def almost_out_def)
  have big: "strip_or_empty ?c \<in> set BIG_OUTPUT_CMDS"
    unfolding clean_display_interface by (simp add: BIG_OUTPUT_CMDS_def)
  from big_not_no_output [OF big] have ne: "strip_or_empty ?c \<noteq> []"
    by simp
  have pos: "0 < INSPECTION_TASK_TIMEOUT - (clock almost_out - 0)"
    unfolding r by simp
  have op: "\<not> channel_closed almost_out"
    unfolding almost_out_def by (rule idle_open)
  have t: "5 = min INSPECTION_CMD_TIMEOUT (INSPECTION_TASK_TIMEOUT - (clock almost_out - 0))"
    unfolding r by (simp add: INSPECTION_CMD_TIMEOUT_def)
  have e: "15 = (if strip_or_empty ?c \<in> set BIG_OUTPUT_CMDS then min (5 * 3) LONG_TIMEOUT else 5)"
    using big by (simp add: LONG_TIMEOUT_def INSPECTION_CMD_TIMEOUT_def)
  from command_writes [OF ne pos op t e, of "ascii ''n''" quiet "[]"] obtain ws ws' where
    "writes (snd (run_command almost_out ?c 5)) = writes almost_out @ (?c, 15) # ws"
    "writes (snd (inspection_commands (ascii ''n'') quiet 0 almost_out [?c])) =
       writes (snd (run_command almost_out ?c 5)) @ ws'"
    by blast
  moreover have "writes almost_out = []"
    by (simp add: writes_def almost_out_def idle_def)
  ultimately have "writes (snd (inspection_commands (ascii ''n'') quiet 0 almost_out [?c])) = (?c, 15) # (ws @ ws')"
    by simp
  with r show ?thesis by blast
qed

subsection \<open>What leaves the command loop\<close>











subsection \<open>The time and the pages of one command\<close>

lemma command_enters_loop:
  assumes "strip_or_empty cmd \<noteq> []" and "strip_or_empty cmd \<notin> set NO_OUTPUT_CMDS"
    and "big_output_limits (strip_or_empty cmd) max_page timeout_per_cmd =
           (page_ceiling, working_timeout)"
    and "send_command_timing cmd working_timeout ssh = (Inr out, ssh1)"
    and "\<not> unrecognized out"
  shows "handle_pagination ssh cmd timeout_per_cmd max_page =
           paging_loop cmd (strip_or_empty cmd) working_timeout page_ceiling (clock ssh1)
             \<lparr>show_text = out, prev_output = [], repeat_count = 0, page_count = 0\<rparr> ssh1"
  using assms by (simp add: handle_pagination_def standard_paging_def)

text \<open>
  C8, as the code has it. A command that is neither blank nor of the no-output set, and
  whose first reply is a text without an unrecognized-command message, enters the paging
  loop with the limits the engine works with: the timeout and the page ceiling it was
  given or, for a command of the large-output set, three times the timeout (capped at
  \<^verbatim>\<open>LONG_TIMEOUT\<close>) and a ceiling of at least \<^verbatim>\<open>BIG_OUTPUT_MAX_PAGE\<close>. Whatever the device
  replies, the loop ends: the ceiling plus one executions of the loop body always reach
  the \<^verbatim>\<open>break\<close>, hence so do the ceiling plus two. If no reply of the device takes longer
  than \<open>d\<close>, the loop ends at most the working timeout plus \<open>d\<close> after it started, that
  is, the working timeout plus one blocking read.
\<close>

theorem paging_bounded_by_working_limits:
  assumes "strip_or_empty cmd \<noteq> []" and "strip_or_empty cmd \<notin> set NO_OUTPUT_CMDS"
    and "big_output_limits (strip_or_empty cmd) max_page timeout_per_cmd =
           (page_ceiling, working_timeout)"
    and "send_command_timing cmd working_timeout ssh = (Inr out, ssh1)"
    and "\<not> unrecognized out"
    and "st0 = \<lparr>show_text = out, prev_output = [], repeat_count = 0, page_count = 0\<rparr>"
  shows "working_timeout = (if strip_or_empty cmd \<in> set BIG_OUTPUT_CMDS
                            then min (timeout_per_cmd * 3) LONG_TIMEOUT else timeout_per_cmd) \<and>
         page_ceiling = (if strip_or_empty cmd \<in> set BIG_OUTPUT_CMDS
                         then max max_page BIG_OUTPUT_MAX_PAGE else max_page) \<and>
         handle_pagination ssh cmd timeout_per_cmd max_page =
           paging_loop cmd (strip_or_empty cmd) working_timeout page_ceiling (clock ssh1) st0 ssh1 \<and>
         paging_iterations (page_ceiling + 1) cmd (strip_or_empty cmd) working_timeout
             page_ceiling (clock ssh1) st0 ssh1 =
           Some (handle_pagination ssh cmd timeout_per_cmd max_page) \<and>
         paging_iterations (page_ceiling + 2) cmd (strip_or_empty cmd) working_timeout
             page_ceiling (clock ssh1) st0 ssh1 =
           Some (handle_pagination ssh cmd timeout_per_cmd max_page) \<and>
         (list_all (\<lambda>r. r_took r \<le> d) (script ssh1) \<and> 0 \<le> d \<and> 0 \<le> working_timeout \<longrightarrow>
            clock (snd (handle_pagination ssh cmd timeout_per_cmd max_page)) - clock ssh1
              \<le> working_timeout + d)"
proof -
  let ?cc = "strip_or_empty cmd"
  from assms(3) have limits:
    "working_timeout = (if ?cc \<in> set BIG_OUTPUT_CMDS
                        then min (timeout_per_cmd * 3) LONG_TIMEOUT else timeout_per_cmd)"
    "page_ceiling = (if ?cc \<in> set BIG_OUTPUT_CMDS
                     then max max_page BIG_OUTPUT_MAX_PAGE else max_page)"
    by (auto simp: big_output_limits_def split: if_splits)
  have enter: "handle_pagination ssh cmd timeout_per_cmd max_page =
      paging_loop cmd ?cc working_timeout page_ceiling (clock ssh1) st0 ssh1"
    unfolding assms(6) by (rule command_enters_loop [OF assms(1-5)])
  have pc: "page_count st0 = 0"
    by (simp add: assms(6))
  have it1: "paging_iterations (page_ceiling + 1) cmd ?cc working_timeout page_ceiling
               (clock ssh1) st0 ssh1 =
             Some (handle_pagination ssh cmd timeout_per_cmd max_page)"
    unfolding enter by (rule paging_iterations_enough) (simp_all add: pc)
  have it2: "paging_iterations (page_ceiling + 2) cmd ?cc working_timeout page_ceiling
               (clock ssh1) st0 ssh1 =
             Some (handle_pagination ssh cmd timeout_per_cmd max_page)"
    unfolding enter by (rule paging_iterations_enough) (simp_all add: pc)
  have time: "clock (snd (handle_pagination ssh cmd timeout_per_cmd max_page)) - clock ssh1
                \<le> working_timeout + d"
    if "list_all (\<lambda>r. r_took r \<le> d) (script ssh1)" "0 \<le> d" "0 \<le> working_timeout"
    unfolding enter using that by (intro paging_loop_clock) simp_all
  from limits enter it1 it2 time show ?thesis
    by blast
qed

theorem paging_bounded_by_working_limits_witness:
  "list_all (\<lambda>r. r_took r \<le> 1)
     (script (snd (send_command_timing (ascii ''display version'') 10 stuck_pager))) \<and>
   paging_iterations 202 (ascii ''display version'') (ascii ''display version'') 10 200
     (clock (snd (send_command_timing (ascii ''display version'') 10 stuck_pager)))
     \<lparr>show_text = ascii ''line 1 --More--'', prev_output = [], repeat_count = 0, page_count = 0\<rparr>
     (snd (send_command_timing (ascii ''display version'') 10 stuck_pager)) =
   Some (handle_pagination stuck_pager (ascii ''display version'') 10 200) \<and>
   clock (snd (handle_pagination stuck_pager (ascii ''display version'') 10 200)) -
     clock (snd (send_command_timing (ascii ''display version'') 10 stuck_pager)) \<le> 11"
proof -
  let ?c = "ascii ''display version''"
  let ?out = "ascii ''line 1 --More--''"
  let ?st0 = "\<lparr>show_text = ?out, prev_output = [], repeat_count = 0, page_count = 0\<rparr>"
  define ssh1 where "ssh1 = snd (send_command_timing ?c 10 stuck_pager)"
  have ne: "strip_or_empty ?c \<noteq> []" and no: "strip_or_empty ?c \<notin> set NO_OUTPUT_CMDS"
    unfolding clean_display_version by (rule display_version_standard)+
  have lim: "big_output_limits (strip_or_empty ?c) 200 10 = (200, 10)"
    unfolding clean_display_version
    by (simp add: big_output_limits_def display_version_standard)
  have send: "send_command_timing ?c 10 stuck_pager = (Inr ?out, ssh1)"
    unfolding ssh1_def by (simp add: send_command_timing_def stuck_pager_def idle_def)
  have h: "list_all (\<lambda>r. r_took r \<le> 1) (script ssh1)"
    unfolding ssh1_def by (simp add: send_command_timing_def stuck_pager_def idle_def)
  from paging_bounded_by_working_limits
         [OF ne no lim send first_page_facts(1) refl, of 1]
  have "paging_iterations (200 + 2) ?c (strip_or_empty ?c) 10 200 (clock ssh1) ?st0 ssh1 =
          Some (handle_pagination stuck_pager ?c 10 200)"
    and "list_all (\<lambda>r. r_took r \<le> 1) (script ssh1) \<and> (0::real) \<le> 1 \<and> (0::real) \<le> 10 \<longrightarrow>
          clock (snd (handle_pagination stuck_pager ?c 10 200)) - clock ssh1 \<le> 10 + 1"
    by blast+
  with h have "paging_iterations 202 ?c ?c 10 200 (clock ssh1) ?st0 ssh1 =
          Some (handle_pagination stuck_pager ?c 10 200)"
    and "clock (snd (handle_pagination stuck_pager ?c 10 200)) - clock ssh1 \<le> 11"
    unfolding clean_display_version by simp_all
  with h show ?thesis
    unfolding ssh1_def by blast
qed

lemma slow_pages:
  "\<not> unrecognized (ascii ''1 --More--'')"
  "\<not> unrecognized (ascii ''1 --More--'' @ ascii ''2'')"
  "\<not> unrecognized ((ascii ''1 --More--'' @ ascii ''2'') @ ascii ''3'')"
  "\<not> unrecognized (((ascii ''1 --More--'' @ ascii ''2'') @ ascii ''3'') @ ascii ''4'')"
  "\<not> unrecognized
       ((((ascii ''1 --More--'' @ ascii ''2'') @ ascii ''3'') @ ascii ''4'') @ ascii ''5'')"
  "find_marker (ascii ''1 --More--'') = Some (ascii ''--More--'')"
  "find_marker (ascii ''1 --More--'' @ ascii ''2'') = Some (ascii ''--More--'')"
  "find_marker ((ascii ''1 --More--'' @ ascii ''2'') @ ascii ''3'') = Some (ascii ''--More--'')"
  "find_marker (((ascii ''1 --More--'' @ ascii ''2'') @ ascii ''3'') @ ascii ''4'') =
     Some (ascii ''--More--'')"
  "py_strip (ascii ''1 --More--'') \<noteq> py_strip []"
  "py_strip (ascii ''1 --More--'' @ ascii ''2'') \<noteq> py_strip (ascii ''1 --More--'')"
  "py_strip ((ascii ''1 --More--'' @ ascii ''2'') @ ascii ''3'') \<noteq>
     py_strip (ascii ''1 --More--'' @ ascii ''2'')"
  "py_strip (((ascii ''1 --More--'' @ ascii ''2'') @ ascii ''3'') @ ascii ''4'') \<noteq>
     py_strip ((ascii ''1 --More--'' @ ascii ''2'') @ ascii ''3'')"
  "py_strip ((((ascii ''1 --More--'' @ ascii ''2'') @ ascii ''3'') @ ascii ''4'') @ ascii ''5'') \<noteq>
     py_strip (((ascii ''1 --More--'' @ ascii ''2'') @ ascii ''3'') @ ascii ''4'')"
  by (simp_all add: unrecognized_def find_marker_def clean_patterns eval_text eval_sublist)

text \<open>
  The claim as it is stated fails for a large-output command. \<^verbatim>\<open>display interface\<close> is
  allotted ten seconds; the engine works with thirty. The device shows the first page
  after one second and takes ten seconds for each further page, so no read takes longer
  than the allotted timeout. The loop starts at second 1 and checks its deadline at
  seconds 1, 11, 21 and 31, each time with at most thirty seconds elapsed; it ends at
  second 41 with the timeout warning, forty seconds after its start, where the allotted
  timeout plus one read is twenty.
\<close>

theorem loop_outlasts_allotted_timeout:
  "list_all (\<lambda>r. r_took r \<le> 10) (script slow_pager) \<and>
   clock (snd (send_command_timing (ascii ''display interface'') 30 slow_pager)) = 1 \<and>
   fst (handle_pagination slow_pager (ascii ''display interface'') 10 DEFAULT_MAX_PAGE) =
     Inr (ascii ''1 --More--2345'' @ timeout_warning) \<and>
   clock (snd (handle_pagination slow_pager (ascii ''display interface'') 10 DEFAULT_MAX_PAGE)) = 41"
proof -
  let ?c = "ascii ''display interface''"
  let ?S1 = "ascii ''1 --More--''"
  let ?S2 = "?S1 @ ascii ''2''"
  let ?S3 = "?S2 @ ascii ''3''"
  let ?S4 = "?S3 @ ascii ''4''"
  let ?S5 = "?S4 @ ascii ''5''"
  define ssh1 where "ssh1 = snd (send_command_timing ?c 30 slow_pager)"
  have big: "strip_or_empty ?c \<in> set BIG_OUTPUT_CMDS"
    unfolding clean_display_interface by (simp add: BIG_OUTPUT_CMDS_def)
  from big_not_no_output [OF big]
  have ne: "strip_or_empty ?c \<noteq> []" and no: "strip_or_empty ?c \<notin> set NO_OUTPUT_CMDS"
    by simp_all
  have lim: "big_output_limits (strip_or_empty ?c) DEFAULT_MAX_PAGE 10 = (600, 30)"
    using big
    by (simp add: big_output_limits_def LONG_TIMEOUT_def INSPECTION_CMD_TIMEOUT_def
                  BIG_OUTPUT_MAX_PAGE_def DEFAULT_MAX_PAGE_def)
  have send: "send_command_timing ?c 30 slow_pager = (Inr ?S1, ssh1)"
    unfolding ssh1_def by (simp add: send_command_timing_def slow_pager_def idle_def)
  have s1: "script ssh1 = Reply (Inr (ascii ''2'')) 10 False #
              [Reply (Inr (ascii ''3'')) 10 False, Reply (Inr (ascii ''4'')) 10 False,
               Reply (Inr (ascii ''5'')) 10 False]"
    and c1: "clock ssh1 = 1"
    unfolding ssh1_def by (simp_all add: send_command_timing_def slow_pager_def idle_def)
  note enter = command_enters_loop [OF ne no lim send slow_pages(1)]
  have d1: "clock ssh1 - clock ssh1 \<le> 30"
    by simp
  from body_changed [OF slow_pages(10,1,6) d1 s1, of 0 600 ?c "strip_or_empty ?c" 0]
  obtain ssh2 where
    b1: "paging_body ?c (strip_or_empty ?c) 30 600 (clock ssh1)
           \<lparr>show_text = ?S1, prev_output = [], repeat_count = 0, page_count = 0\<rparr> ssh1 =
         Continue \<lparr>show_text = ?S2, prev_output = ?S1, repeat_count = 0, page_count = Suc 0\<rparr> ssh2"
    and s2: "script ssh2 = [Reply (Inr (ascii ''3'')) 10 False, Reply (Inr (ascii ''4'')) 10 False,
               Reply (Inr (ascii ''5'')) 10 False]"
    and c2: "clock ssh2 = clock ssh1 + 10"
    by auto
  have d2: "clock ssh2 - clock ssh1 \<le> 30"
    by (simp add: c2)
  from body_changed [OF slow_pages(11,2,7) d2 s2, of "Suc 0" 600 ?c "strip_or_empty ?c" 0]
  obtain ssh3 where
    b2: "paging_body ?c (strip_or_empty ?c) 30 600 (clock ssh1)
           \<lparr>show_text = ?S2, prev_output = ?S1, repeat_count = 0, page_count = Suc 0\<rparr> ssh2 =
         Continue \<lparr>show_text = ?S3, prev_output = ?S2, repeat_count = 0,
                   page_count = Suc (Suc 0)\<rparr> ssh3"
    and s3: "script ssh3 = [Reply (Inr (ascii ''4'')) 10 False, Reply (Inr (ascii ''5'')) 10 False]"
    and c3: "clock ssh3 = clock ssh2 + 10"
    by auto
  have d3: "clock ssh3 - clock ssh1 \<le> 30"
    by (simp add: c2 c3)
  from body_changed [OF slow_pages(12,3,8) d3 s3, of "Suc (Suc 0)" 600 ?c "strip_or_empty ?c" 0]
  obtain ssh4 where
    b3: "paging_body ?c (strip_or_empty ?c) 30 600 (clock ssh1)
           \<lparr>show_text = ?S3, prev_output = ?S2, repeat_count = 0,
             page_count = Suc (Suc 0)\<rparr> ssh3 =
         Continue \<lparr>show_text = ?S4, prev_output = ?S3, repeat_count = 0,
                   page_count = Suc (Suc (Suc 0))\<rparr> ssh4"
    and s4: "script ssh4 = [Reply (Inr (ascii ''5'')) 10 False]"
    and c4: "clock ssh4 = clock ssh3 + 10"
    by auto
  have d4: "clock ssh4 - clock ssh1 \<le> 30"
    by (simp add: c2 c3 c4)
  from body_changed [OF slow_pages(13,4,9) d4 s4, of "Suc (Suc (Suc 0))" 600 ?c
         "strip_or_empty ?c" 0]
  obtain ssh5 where
    b4: "paging_body ?c (strip_or_empty ?c) 30 600 (clock ssh1)
           \<lparr>show_text = ?S4, prev_output = ?S3, repeat_count = 0,
             page_count = Suc (Suc (Suc 0))\<rparr> ssh4 =
         Continue \<lparr>show_text = ?S5, prev_output = ?S4, repeat_count = 0,
                   page_count = Suc (Suc (Suc (Suc 0)))\<rparr> ssh5"
    and c5: "clock ssh5 = clock ssh4 + 10"
    by auto
  have d5: "clock ssh5 - clock ssh1 > 30"
    by (simp add: c2 c3 c4 c5)
  have b5: "paging_body ?c (strip_or_empty ?c) 30 600 (clock ssh1)
           \<lparr>show_text = ?S5, prev_output = ?S4, repeat_count = 0,
             page_count = Suc (Suc (Suc (Suc 0)))\<rparr> ssh5 =
         Break (Inr (?S5 @ timeout_warning)) ssh5"
    unfolding after_deadline_body [OF d5]
    using slow_pages(5,14) by (simp add: current_max_repeat_values)
  have "handle_pagination slow_pager ?c 10 DEFAULT_MAX_PAGE = (Inr (?S5 @ timeout_warning), ssh5)"
    unfolding enter
    unfolding paging_loop_Continue [OF b1] paging_loop_Continue [OF b2]
      paging_loop_Continue [OF b3] paging_loop_Continue [OF b4]
    by (rule paging_loop_Break [OF b5])
  moreover have "clock ssh5 = 41"
    by (simp add: c1 c2 c3 c4 c5)
  moreover have "?S5 = ascii ''1 --More--2345''"
    by (simp add: ascii_def)
  moreover have "list_all (\<lambda>r. r_took r \<le> 10) (script slow_pager)"
    by (simp add: slow_pager_def idle_def)
  ultimately show ?thesis
    using c1 unfolding ssh1_def by simp
qed

end
